theory Spec2Isabelle
  imports Complex_Main "HOL-Library.AList"
begin

section \<open>Errors\<close>

text \<open>
  Every raise of the Python source is a value. \<open>IndexError\<close>: \<open>list.pop\<close> on an empty
  list or an index out of range; \<open>KeyError\<close>: a missing dictionary or ordered-map key;
  \<open>AttributeError\<close>: an attribute read on \<open>None\<close>; \<open>ValueError\<close>: \<open>random.sample\<close>
  asked for more than the population; \<open>LibraryError\<close>: the tree-sequence library
  rejecting a set of tables; \<open>AssertionError\<close>: a failed \<open>assert\<close>.
\<close>

datatype error = IndexError | KeyError | AttributeError | ValueError | LibraryError
  | AssertionError

section \<open>Tree sequences (the tables of the external library)\<close>

text \<open>
  Modelled from the spec: the tree-sequence library (\<open>msprime\<close>) is not among the source
  files. A tree sequence is its four tables (section 3 and section 6 of the spec: node
  rows \<open>{flags, name, population, time}\<close>, edge rows \<open>{left, right, parent, child}\<close>,
  site rows \<open>{position, ancestral_state}\<close>, mutation rows
  \<open>{site, node, derived_state, parent}\<close>) and its sequence length. Genomic coordinates
  and times are real numbers here; identifiers are Python integers, \<open>-1\<close> being the
  library's null node, null population and null mutation.
\<close>

record node_row =
  n_flags :: nat
  n_name :: string
  n_population :: int
  n_time :: real

record edge_row =
  e_left :: real
  e_right :: real
  e_parent :: int
  e_child :: int

record site_row =
  s_position :: real
  s_ancestral_state :: string

record mutation_row =
  m_site :: int
  m_node :: int
  m_derived_state :: string
  m_parent :: int

record tree_sequence =
  ts_nodes :: "node_row list"
  ts_edges :: "edge_row list"
  ts_sites :: "site_row list"
  ts_mutations :: "mutation_row list"
  ts_sequence_length :: real

definition NULL_NODE :: int where
  "NULL_NODE = -1"

definition NULL_POPULATION :: int where
  "NULL_POPULATION = -1"

definition NULL_MUTATION :: int where
  "NULL_MUTATION = -1"

text \<open>The sample flag is bit 0 of a node's flags.\<close>

definition is_sample :: "node_row \<Rightarrow> bool" where
  "is_sample nd = odd (n_flags nd)"

text \<open>\<open>ts.samples()\<close>: the identifiers of the nodes that carry the sample flag.\<close>

definition ts_samples :: "tree_sequence \<Rightarrow> int list" where
  "ts_samples ts = map int (filter (\<lambda>j. is_sample (ts_nodes ts ! j)) [0..<length (ts_nodes ts)])"

section \<open>The state of the simplifier\<close>

text \<open>
  A \<open>Segment\<close> object lives in the arena \<open>self.segments\<close> at the slot of its \<open>index\<close>,
  which never changes; a reference to a segment is that index, and \<open>None\<close> is \<open>None\<close>.
\<close>

record segment =
  seg_left :: real
  seg_right :: real
  seg_node :: int
  seg_population :: nat
  seg_prev :: "nat option"
  seg_next :: "nat option"

text \<open>One entry of the Coalescence Record Log \<open>C\<close>: \<open>(l, r, u, children, t)\<close>.\<close>

type_synonym coalescence_record = "real \<times> real \<times> int \<times> int list \<times> real"

text \<open>
  The fields of \<open>Simplifier\<close>, each under its source name with the prefix \<open>sim_\<close>.
  \<open>sim_segment_stack\<close> is kept top first: Python's \<open>append\<close> is \<open>#\<close> and \<open>pop()\<close> takes
  the head. \<open>sim_S\<close> is the ordered map as an association list with distinct keys;
  its order queries go by the keys, not by the position in the list. \<open>sim_L\<close> holds the
  value last set at each slot of the Fenwick tree. \<open>sim_P\<close> is the list of populations,
  each the list \<open>_ancestors\<close> of its chain heads.
\<close>

record simplifier =
  sim_ts :: tree_sequence
  sim_n :: int
  sim_m :: real
  sim_max_segments :: nat
  sim_segment_stack :: "nat list"
  sim_segments :: "nat \<Rightarrow> segment"
  sim_P :: "nat list list"
  sim_C :: "coalescence_record list"
  sim_L :: "nat \<Rightarrow> real"
  sim_S :: "(real \<times> int) list"
  sim_A :: "int \<rightharpoonup> nat"
  sim_pop_index :: nat
  sim_t :: real
  sim_w :: int
  sim_num_ca_events :: nat
  sim_num_re_events :: nat

subsection \<open>The base engine\<close>

text \<open>
  Modelled from the spec: the base simulation module (\<open>algorithms\<close>) is not among the
  source files. Section 6: \<open>alloc_segment(left, right, node, population, prev=absent,
  next=absent)\<close> draws a free arena slot, fatal if the free list is empty, and returns
  the new segment. The free list is \<open>self.segment_stack\<close>, which the constructor in the
  source fills; the fatal condition is the \<open>IndexError\<close> of popping an empty list.
\<close>

definition alloc_segment ::
  "real \<Rightarrow> real \<Rightarrow> int \<Rightarrow> nat \<Rightarrow> nat option \<Rightarrow> nat option \<Rightarrow> simplifier
    \<Rightarrow> error + (nat \<times> simplifier)" where
  "alloc_segment l r nd pop prv nxt s =
     (case sim_segment_stack s of
        [] \<Rightarrow> Inl IndexError
      | i # rest \<Rightarrow>
          Inr (i, s\<lparr>sim_segment_stack := rest,
                    sim_segments := (sim_segments s)
                      (i := \<lparr>seg_left = l, seg_right = r, seg_node = nd, seg_population = pop,
                             seg_prev = prv, seg_next = nxt\<rparr>)\<rparr>))"

text \<open>
  Modelled from the spec: \<open>L.set_value(index, value)\<close> of the Weighted Index, which
  this algorithm only writes.
\<close>

definition L_set_value :: "nat \<Rightarrow> real \<Rightarrow> simplifier \<Rightarrow> simplifier" where
  "L_set_value i v s = s\<lparr>sim_L := (sim_L s)(i := v)\<rparr>"

text \<open>
  Modelled from the spec: \<open>free_segment\<close> returns a slot to the free list (and, as the
  base engine does, sets its weight to zero).
\<close>

definition free_segment :: "nat \<Rightarrow> simplifier \<Rightarrow> simplifier" where
  "free_segment i s = (L_set_value i 0 s)\<lparr>sim_segment_stack := i # sim_segment_stack s\<rparr>"

text \<open>
  Modelled from the spec (section 4.1): \<open>P[pop].add(segment)\<close> registers a chain head;
  \<open>P[pop]\<close> with no such population is an \<open>IndexError\<close>.
\<close>

definition pop_add :: "nat \<Rightarrow> nat \<Rightarrow> simplifier \<Rightarrow> error + simplifier" where
  "pop_add pop x s =
     (if pop < length (sim_P s)
      then Inr (s\<lparr>sim_P := (sim_P s)[pop := (sim_P s ! pop) @ [x]]\<rparr>)
      else Inl IndexError)"

text \<open>
  \<open>SearchablePopulation.from_index\<close> (lines 25-30): the first registered head whose
  index is the one asked for, or \<open>None\<close>.
\<close>

definition from_index :: "nat list \<Rightarrow> nat \<Rightarrow> nat option" where
  "from_index ancestors i = find (\<lambda>x. x = i) ancestors"

subsection \<open>The ordered map \<open>S\<close>\<close>

text \<open>
  Modelled from the spec: the balanced ordered-map container (\<open>bintrees.AVLTree\<close>) is
  an external library. \<open>S[k]\<close> raises \<open>KeyError\<close> on a missing key, \<open>S[k] = v\<close> inserts
  or overwrites, \<open>floor_key(k)\<close> is the greatest key not above \<open>k\<close> and \<open>succ_key(k)\<close>
  the least key above \<open>k\<close>, each a \<open>KeyError\<close> when there is none.
\<close>

definition S_get :: "(real \<times> int) list \<Rightarrow> real \<Rightarrow> error + int" where
  "S_get S k = (case map_of S k of None \<Rightarrow> Inl KeyError | Some v \<Rightarrow> Inr v)"

definition S_set :: "(real \<times> int) list \<Rightarrow> real \<Rightarrow> int \<Rightarrow> (real \<times> int) list" where
  "S_set S k v = AList.update k v S"

definition S_contains :: "(real \<times> int) list \<Rightarrow> real \<Rightarrow> bool" where
  "S_contains S k = (k \<in> set (map fst S))"

definition floor_key :: "(real \<times> int) list \<Rightarrow> real \<Rightarrow> error + real" where
  "floor_key S k =
     (case filter (\<lambda>j. j \<le> k) (map fst S) of
        [] \<Rightarrow> Inl KeyError
      | j # js \<Rightarrow> Inr (fold max js j))"

definition succ_key :: "(real \<times> int) list \<Rightarrow> real \<Rightarrow> error + real" where
  "succ_key S k =
     (case filter (\<lambda>j. k < j) (map fst S) of
        [] \<Rightarrow> Inl KeyError
      | j # js \<Rightarrow> Inr (fold min js j))"

section \<open>\<open>Simplifier.__init__\<close> (lines 36-75)\<close>

text \<open>
  Lines 49-54: the arena. Every slot \<open>1 .. max_segments\<close> holds a blank segment (the
  fields of a blank \<open>Segment\<close> are never read before \<open>alloc_segment\<close> sets them) and is
  pushed on the stack in the order of its index.
\<close>

definition blank_segment :: segment where
  "blank_segment = \<lparr>seg_left = 0, seg_right = 0, seg_node = NULL_NODE, seg_population = 0,
     seg_prev = None, seg_next = None\<rparr>"

definition initial_stack :: "nat \<Rightarrow> nat list" where
  "initial_stack max_segments = fold (\<lambda>j st. Suc j # st) [0..<max_segments] []"

text \<open>
  Lines 64-69: \<open>for k in range(sample_size): if k in samples: ...\<close>, over the values
  of \<open>k\<close> still to come.
\<close>

fun init_samples :: "int list \<Rightarrow> nat list \<Rightarrow> simplifier \<Rightarrow> error + simplifier" where
  "init_samples samples [] s = Inr s"
| "init_samples samples (k # ks) s =
     (if int k \<in> set samples
      then (case alloc_segment 0 (sim_m s) (int k) (sim_pop_index s) None None s of
              Inl e \<Rightarrow> Inl e
            | Inr (x, s1) \<Rightarrow>
                (case pop_add (sim_pop_index s1) x (L_set_value x (sim_m s1 - 1) s1) of
                   Inl e \<Rightarrow> Inl e
                 | Inr s2 \<Rightarrow> init_samples samples ks (s2\<lparr>sim_A := (sim_A s2)(int k \<mapsto> x)\<rparr>)))
      else init_samples samples ks s)"

definition Simplifier_init :: "tree_sequence \<Rightarrow> int list \<Rightarrow> nat \<Rightarrow> error + simplifier" where
  "Simplifier_init ts samples max_segments =
     (let sample_size = length (ts_samples ts);
          num_loci = ts_sequence_length ts;
          s0 = \<lparr>sim_ts = ts, sim_n = int sample_size, sim_m = num_loci,
                sim_max_segments = max_segments,
                sim_segment_stack = initial_stack max_segments,
                sim_segments = (\<lambda>j. blank_segment),
                sim_P = [[]], sim_C = [], sim_L = (\<lambda>j. 0), sim_S = [],
                sim_A = Map.empty, sim_pop_index = 0, sim_t = 0, sim_w = 0,
                sim_num_ca_events = 0, sim_num_re_events = 0\<rparr>
      in case init_samples samples [0..<sample_size] s0 of
           Inl e \<Rightarrow> Inl e
         | Inr s1 \<Rightarrow>
             Inr (s1\<lparr>sim_S := S_set (S_set (sim_S s1) 0 (sim_n s1)) (sim_m s1) (- 1),
                      sim_t := 0, sim_w := sim_n s1,
                      sim_num_ca_events := 0, sim_num_re_events := 0\<rparr>))"


section \<open>Reading and writing segments\<close>

text \<open>Attribute reads and writes on the segment a reference points to.\<close>

definition seg :: "simplifier \<Rightarrow> nat \<Rightarrow> segment" where
  "seg s i = sim_segments s i"

definition set_left :: "nat \<Rightarrow> real \<Rightarrow> simplifier \<Rightarrow> simplifier" where
  "set_left i v s = s\<lparr>sim_segments := (sim_segments s)(i := (sim_segments s i)\<lparr>seg_left := v\<rparr>)\<rparr>"

definition set_right :: "nat \<Rightarrow> real \<Rightarrow> simplifier \<Rightarrow> simplifier" where
  "set_right i v s = s\<lparr>sim_segments := (sim_segments s)(i := (sim_segments s i)\<lparr>seg_right := v\<rparr>)\<rparr>"

definition set_prev :: "nat \<Rightarrow> nat option \<Rightarrow> simplifier \<Rightarrow> simplifier" where
  "set_prev i v s = s\<lparr>sim_segments := (sim_segments s)(i := (sim_segments s i)\<lparr>seg_prev := v\<rparr>)\<rparr>"

definition set_next :: "nat \<Rightarrow> nat option \<Rightarrow> simplifier \<Rightarrow> simplifier" where
  "set_next i v s = s\<lparr>sim_segments := (sim_segments s)(i := (sim_segments s i)\<lparr>seg_next := v\<rparr>)\<rparr>"

section \<open>The heap \<open>H\<close>\<close>

text \<open>
  Modelled from the spec: \<open>heapq\<close> is Python's library. \<open>H\<close> is a priority queue of
  \<open>(left, segment)\<close> pairs; \<open>H[0][0]\<close> is the least left coordinate in it. Among
  entries with the same left coordinate the source leaves the order to the comparison
  of \<open>Segment\<close> objects, which the spec leaves unspecified (section 9); here the
  entries are kept in the order of their pushes and the earliest pushed of the least
  ones is popped.
\<close>

type_synonym heap = "(real \<times> nat) list"

definition heappush :: "heap \<Rightarrow> real \<times> nat \<Rightarrow> heap" where
  "heappush H e = H @ [e]"

definition heap_min :: "heap \<Rightarrow> real" where
  "heap_min H = fold min (map fst (tl H)) (fst (hd H))"

fun remove_first :: "real \<Rightarrow> heap \<Rightarrow> heap" where
  "remove_first l [] = []"
| "remove_first l (e # es) = (if fst e = l then es else e # remove_first l es)"

definition heappop :: "heap \<Rightarrow> error + ((real \<times> nat) \<times> heap)" where
  "heappop H =
     (case find (\<lambda>e. fst e = heap_min H) H of
        None \<Rightarrow> Inl IndexError
      | Some e \<Rightarrow> Inr (e, remove_first (heap_min H) H))"

section \<open>\<open>Simplifier.get_ancestor\<close> (lines 86-91)\<close>

definition get_ancestor :: "int \<Rightarrow> simplifier \<Rightarrow> error + nat option" where
  "get_ancestor u s =
     (case sim_A s u of
        None \<Rightarrow> Inr None
      | Some i \<Rightarrow>
          if sim_pop_index s < length (sim_P s)
          then Inr (from_index (sim_P s ! sim_pop_index s) i)
          else Inl IndexError)"

section \<open>\<open>Simplifier.remove_ancestry\<close> (lines 93-168)\<close>

text \<open>An edge as \<open>ts.edgesets()\<close> yields it: one parent, its children, one interval.\<close>

record edgeset =
  es_left :: real
  es_right :: real
  es_parent :: int
  es_children :: "int list"

text \<open>
  The local variables of the loop over one child (lines 105-153). \<open>overhang_right\<close>
  is read at line 156 only after the loop body has assigned it.
\<close>

record ra_vars =
  v_x :: "nat option"
  v_y :: "nat option"
  v_z :: "nat option"
  v_w :: "nat option"
  v_output_head :: bool
  v_overhang_right :: bool
  v_H :: heap

text \<open>
  Lines 117-151, one pass through the body of the \<open>while\<close> for the segment \<open>xi\<close> that
  \<open>x\<close> refers to. The boolean of the result tells whether the pass left the loop by
  \<open>break\<close>. Every attribute is read from the state as it is at the time of the read.
\<close>

definition ra_overlap_left ::
  "edgeset \<Rightarrow> nat \<Rightarrow> ra_vars \<Rightarrow> simplifier \<Rightarrow> error + (ra_vars \<times> simplifier)" where
  "ra_overlap_left e xi v s =
     (let out_left = max (es_left e) (seg_left (seg s xi));
          out_right = min (es_right e) (seg_right (seg s xi));
          overhang_left = (seg_left (seg s xi) < out_left)
      in if overhang_left
         then (let s1 = set_right xi out_left s
               in case alloc_segment out_left out_right (seg_node (seg s1 xi))
                         (seg_population (seg s1 xi)) (v_w v) None s1 of
                    Inl err \<Rightarrow> Inl err
                  | Inr (w, s2) \<Rightarrow> Inr (v\<lparr>v_y := Some xi, v_w := Some w\<rparr>, s2))
         else Inr (v\<lparr>v_w := Some xi\<rparr>, set_right xi out_right (set_prev xi (v_w v) s)))"

definition ra_push_head :: "ra_vars \<Rightarrow> simplifier \<Rightarrow> error + ra_vars" where
  "ra_push_head v s =
     (if v_output_head v
      then (case v_w v of
              None \<Rightarrow> Inl AttributeError
            | Some w \<Rightarrow> Inr (v\<lparr>v_H := heappush (v_H v) (seg_left (seg s w), w),
                              v_output_head := False\<rparr>))
      else Inr v)"

definition ra_overhang_right ::
  "real \<Rightarrow> real \<Rightarrow> nat \<Rightarrow> ra_vars \<Rightarrow> simplifier \<Rightarrow> error + (ra_vars \<times> simplifier)" where
  "ra_overhang_right out_right seg_right0 xi v s =
     (case alloc_segment out_right seg_right0 (seg_node (seg s xi)) (seg_population (seg s xi))
             (v_y v) (seg_next (seg s xi)) s of
        Inl err \<Rightarrow> Inl err
      | Inr (z, s1) \<Rightarrow>
          (let s2 = (case v_y v of None \<Rightarrow> s1 | Some y \<Rightarrow> set_next y (Some z) s1);
               s3 = (case seg_next (seg s2 xi) of None \<Rightarrow> s2 | Some nx \<Rightarrow> set_prev nx (Some z) s2)
           in Inr (v\<lparr>v_z := Some z\<rparr>, s3)))"

definition ra_body ::
  "edgeset \<Rightarrow> nat \<Rightarrow> ra_vars \<Rightarrow> simplifier \<Rightarrow> error + (bool \<times> ra_vars \<times> simplifier)" where
  "ra_body e xi v s =
     (if es_left e \<le> seg_right (seg s xi) \<and> es_right e \<ge> seg_left (seg s xi)
      then (let seg_right0 = seg_right (seg s xi);
                out_right = min (es_right e) (seg_right (seg s xi));
                overhang_right = (seg_right (seg s xi) > out_right)
            in case ra_overlap_left e xi v s of
                 Inl err \<Rightarrow> Inl err
               | Inr (v1, s1) \<Rightarrow>
                   (case ra_push_head v1 s1 of
                      Inl err \<Rightarrow> Inl err
                    | Inr v2 \<Rightarrow>
                        if overhang_right
                        then (case ra_overhang_right out_right seg_right0 xi
                                     (v2\<lparr>v_overhang_right := True\<rparr>) s1 of
                                Inl err \<Rightarrow> Inl err
                              | Inr (v3, s3) \<Rightarrow> Inr (True, v3, s3))
                        else Inr (False, v2\<lparr>v_overhang_right := False\<rparr>, s1)))
      else Inr (False, v\<lparr>v_y := Some xi\<rparr>, s))"

text \<open>
  Lines 116-153, the \<open>while\<close>. The chain it walks is whatever the \<open>next\<close> references
  say, so the number of passes is bounded by fuel: \<open>None\<close> is a walk that has not ended
  within the fuel.
\<close>

fun ra_while ::
  "nat \<Rightarrow> edgeset \<Rightarrow> ra_vars \<Rightarrow> simplifier \<Rightarrow> (error + (ra_vars \<times> simplifier)) option" where
  "ra_while 0 e v s = None"
| "ra_while (Suc k) e v s =
     (case v_x v of
        None \<Rightarrow> Some (Inr (v, s))
      | Some xi \<Rightarrow>
          if es_right e > seg_left (seg s xi)
          then (case ra_body e xi v s of
                  Inl err \<Rightarrow> Some (Inl err)
                | Inr (brk, v1, s1) \<Rightarrow>
                    if brk then Some (Inr (v1, s1))
                    else ra_while k e (v1\<lparr>v_x := seg_next (seg s1 xi)\<rparr>) s1)
          else Some (Inr (v, s)))"

text \<open>Lines 155-167, the wrap-up after the loop for the child \<open>child\<close>.\<close>

definition ra_wrapup :: "int \<Rightarrow> ra_vars \<Rightarrow> simplifier \<Rightarrow> simplifier" where
  "ra_wrapup child v s =
     (if \<not> v_output_head v
      then (let z = (if \<not> v_overhang_right v then v_x v else v_z v);
                s1 = (case v_y v of None \<Rightarrow> s | Some y \<Rightarrow> set_next y z s);
                s2 = (case z of None \<Rightarrow> s1 | Some zi \<Rightarrow> set_prev zi (v_y v) s1)
            in case v_y v of
                 None \<Rightarrow>
                   (case z of
                      None \<Rightarrow> s2\<lparr>sim_A := (sim_A s2)(child := None)\<rparr>
                    | Some zi \<Rightarrow> s2\<lparr>sim_A := (sim_A s2)(child \<mapsto> zi)\<rparr>)
               | Some y \<Rightarrow> s2)
      else s)"

text \<open>Lines 105-115, the variables as the loop over one child starts.\<close>

definition ra_start :: "nat option \<Rightarrow> heap \<Rightarrow> ra_vars" where
  "ra_start x H = \<lparr>v_x = x, v_y = None, v_z = None, v_w = None, v_output_head = True,
     v_overhang_right = False, v_H = H\<rparr>"

text \<open>Lines 104-167, the body of \<open>for child in edge.children\<close>.\<close>

definition ra_child ::
  "nat \<Rightarrow> edgeset \<Rightarrow> int \<Rightarrow> heap \<times> simplifier \<Rightarrow> (error + (heap \<times> simplifier)) option" where
  "ra_child fuel e child Hs =
     (case Hs of (H, s) \<Rightarrow>
        if child \<in> dom (sim_A s)
        then (case get_ancestor child s of
                Inl err \<Rightarrow> Some (Inl err)
              | Inr x \<Rightarrow>
                  (case ra_while fuel e (ra_start x H) s of
                     None \<Rightarrow> None
                   | Some (Inl err) \<Rightarrow> Some (Inl err)
                   | Some (Inr (v, s1)) \<Rightarrow> Some (Inr (v_H v, ra_wrapup child v s1))))
        else Some (Inr (H, s)))"

fun ra_children ::
  "nat \<Rightarrow> edgeset \<Rightarrow> int list \<Rightarrow> heap \<times> simplifier \<Rightarrow> (error + (heap \<times> simplifier)) option" where
  "ra_children fuel e [] Hs = Some (Inr Hs)"
| "ra_children fuel e (child # rest) Hs =
     (case ra_child fuel e child Hs of
        None \<Rightarrow> None
      | Some (Inl err) \<Rightarrow> Some (Inl err)
      | Some (Inr Hs1) \<Rightarrow> ra_children fuel e rest Hs1)"

text \<open>Lines 99-102, the parent of the edge.\<close>

definition ra_parent :: "edgeset \<Rightarrow> simplifier \<Rightarrow> error + heap" where
  "ra_parent e s =
     (if es_parent e \<in> dom (sim_A s)
      then (case get_ancestor (es_parent e) s of
              Inl err \<Rightarrow> Inl err
            | Inr None \<Rightarrow> Inl AttributeError
            | Inr (Some w) \<Rightarrow> Inr (heappush [] (seg_left (seg s w), w)))
      else Inr [])"

definition remove_ancestry ::
  "nat \<Rightarrow> edgeset \<Rightarrow> simplifier \<Rightarrow> (error + (heap \<times> simplifier)) option" where
  "remove_ancestry fuel e s =
     (case ra_parent e s of
        Inl err \<Rightarrow> Some (Inl err)
      | Inr H \<Rightarrow> ra_children fuel e (es_children e) (H, s))"

section \<open>\<open>Simplifier.merge_labeled_ancestors\<close> (lines 170-258)\<close>

text \<open>
  Lines 186-189: pop every entry whose left coordinate is \<open>l\<close> into \<open>X\<close>, narrowing
  \<open>r_max\<close> to the least right coordinate met.
\<close>

function pop_batch ::
  "real \<Rightarrow> heap \<Rightarrow> nat list \<Rightarrow> real \<Rightarrow> simplifier \<Rightarrow> error + (heap \<times> nat list \<times> real)" where
  "pop_batch l H X r_max s =
     (if H \<noteq> [] \<and> heap_min H = l
      then (case heappop H of
              Inl err \<Rightarrow> Inl err
            | Inr (entry, H1) \<Rightarrow>
                pop_batch l H1 (X @ [snd entry]) (min r_max (seg_right (seg s (snd entry)))) s)
      else Inr (H, X, r_max))"
  by pat_completeness auto

lemma remove_first_length:
  "\<exists>e \<in> set H. fst e = l \<Longrightarrow> Suc (length (remove_first l H)) = length H"
  by (induction H) auto

lemma heappop_shorter:
  assumes "heappop H = Inr (entry, H1)"
  shows "length H1 < length H"
proof -
  from assms obtain e where "find (\<lambda>e. fst e = heap_min H) H = Some e"
    and H1: "H1 = remove_first (heap_min H) H"
    by (auto simp: heappop_def split: option.splits)
  then have "\<exists>e \<in> set H. fst e = heap_min H"
    by (auto simp: find_Some_iff)
  from remove_first_length[OF this] H1 show ?thesis by simp
qed

termination pop_batch
  by (relation "measure (\<lambda>(l, H, X, r_max, s). length H)") (auto dest: heappop_shorter)

declare pop_batch.simps [simp del]

text \<open>Lines 192-204: a batch of one segment \<open>x\<close>.\<close>

definition mla_single :: "nat \<Rightarrow> heap \<Rightarrow> simplifier \<Rightarrow> error + (nat option \<times> heap \<times> simplifier)" where
  "mla_single x H s =
     (if H \<noteq> [] \<and> heap_min H < seg_right (seg s x)
      then (case alloc_segment (seg_left (seg s x)) (heap_min H) (seg_node (seg s x))
                   (seg_population (seg s x)) None None s of
              Inl err \<Rightarrow> Inl err
            | Inr (alpha, s1) \<Rightarrow>
                (let s2 = set_left x (heap_min H) s1
                 in Inr (Some alpha, heappush H (seg_left (seg s2 x), x), s2)))
      else (let H1 = (case seg_next (seg s x) of
                        None \<Rightarrow> H
                      | Some y \<Rightarrow> heappush H (seg_left (seg s y), y))
            in Inr (Some x, H1, set_next x None s)))"

text \<open>
  Lines 206-209: the node of a coalescence. The first coalescence of a call takes the
  value of the counter \<open>w\<close> and increments it; every later one of the same call takes
  the same node again.
\<close>

definition next_node_id :: "bool \<Rightarrow> simplifier \<Rightarrow> bool \<times> int \<times> simplifier" where
  "next_node_id coalescence s =
     (let s1 = (if \<not> coalescence then s\<lparr>sim_w := sim_w s + 1\<rparr> else s)
      in (True, sim_w s1 - 1, s1))"

text \<open>Lines 212-214 and 215-217: make \<open>k\<close> a key of \<open>S\<close>, with the count of its floor.\<close>

definition S_ensure :: "real \<Rightarrow> (real \<times> int) list \<Rightarrow> error + (real \<times> int) list" where
  "S_ensure k S =
     (if \<not> S_contains S k
      then (case floor_key S k of
              Inl err \<Rightarrow> Inl err
            | Inr j \<Rightarrow> (case S_get S j of Inl err \<Rightarrow> Inl err | Inr c \<Rightarrow> Inr (S_set S k c)))
      else Inr S)"

text \<open>
  Lines 224-226: \<open>while r < r_max and S[r] != len(X): S[r] -= len(X) - 1;
  r = S.succ_key(r)\<close>, with \<open>nX\<close> for \<open>len(X)\<close>. Each pass moves \<open>r\<close> to a greater key
  of a map whose keys stay the same.
\<close>

function S_walk ::
  "nat \<Rightarrow> real \<Rightarrow> (real \<times> int) list \<Rightarrow> real \<Rightarrow> error + (real \<times> (real \<times> int) list)" where
  "S_walk nX r_max S r =
     (if r < r_max
      then (case S_get S r of
              Inl err \<Rightarrow> Inl err
            | Inr c \<Rightarrow>
                if c \<noteq> int nX
                then (case succ_key (S_set S r (c - (int nX - 1))) r of
                        Inl err \<Rightarrow> Inl err
                      | Inr r1 \<Rightarrow> S_walk nX r_max (S_set S r (c - (int nX - 1))) r1)
                else Inr (r, S))
      else Inr (r, S))"
  by pat_completeness auto

lemma filter_length_less:
  assumes "x \<in> set xs" and "P x" and "\<not> Q x" and "\<And>y. Q y \<Longrightarrow> P y"
  shows "length (filter Q xs) < length (filter P xs)"
  using assms(1)
proof (induction xs)
  case Nil
  then show ?case by simp
next
  case (Cons a xs)
  have le: "length (filter Q xs) \<le> length (filter P xs)"
  proof (induction xs)
    case Nil
    then show ?case by simp
  next
    case (Cons b bs)
    then show ?case using assms(4) by auto
  qed
  show ?case
  proof (cases "a = x")
    case True
    with le assms(2,3) show ?thesis by simp
  next
    case False
    with Cons have "length (filter Q xs) < length (filter P xs)" by simp
    then show ?thesis using assms(4) by auto
  qed
qed

lemma succ_key_least:
  assumes "succ_key S k = Inr j"
  shows "k < j" and "j \<in> set (map fst S)" and "\<And>i. i \<in> set (map fst S) \<Longrightarrow> k < i \<Longrightarrow> j \<le> i"
proof -
  from assms obtain a as where f: "filter (\<lambda>j. k < j) (map fst S) = a # as"
    and j: "j = fold min as a"
    by (auto simp: succ_key_def split: list.splits)
  have jm: "j = Min (set (a # as))" unfolding j by (rule Min.set_eq_fold[symmetric])
  then have "j \<in> set (a # as)" using Min_in[of "set (a # as)"] by simp
  then have "j \<in> set (filter (\<lambda>j. k < j) (map fst S))" using f by simp
  then show "k < j" and "j \<in> set (map fst S)" by auto
  fix i assume "i \<in> set (map fst S)" "k < i"
  then have "i \<in> set (filter (\<lambda>j. k < j) (map fst S))" by simp
  then have "i \<in> set (a # as)" unfolding f .
  then show "j \<le> i" using jm by simp
qed

lemma S_set_keys:
  "S_get S k = Inr c \<Longrightarrow> map fst (S_set S k v) = map fst S"
  by (auto simp: S_get_def S_set_def update_keys split: option.splits dest: map_of_SomeD)
     (metis fst_conv image_eqI map_of_SomeD)

termination S_walk
proof (relation "measure (\<lambda>(nX, r_max, S, r). length (filter (\<lambda>k. r < k) (map fst S)))")
  show "wf (measure (\<lambda>(nX, r_max, S, r). length (filter (\<lambda>k. r < k) (map fst S))))"
    by simp
next
  fix nX :: nat and r_max :: real and S :: "(real \<times> int) list" and r c r1 :: real
  fix x2 :: int
  assume g: "S_get S r = Inr x2"
    and sk: "succ_key (S_set S r (x2 - (int nX - 1))) r = Inr r1"
  have keys: "map fst (S_set S r (x2 - (int nX - 1))) = map fst S"
    using g by (rule S_set_keys)
  from succ_key_least(1,2)[OF sk] keys have r1: "r < r1" "r1 \<in> set (map fst S)" by simp_all
  have lt: "length (filter (\<lambda>k. r1 < k) (map fst S)) < length (filter (\<lambda>k. r < k) (map fst S))"
    by (rule filter_length_less[of r1]) (use r1 in auto)
  show "((nX, r_max, S_set S r (x2 - (int nX - 1)), r1), (nX, r_max, S, r))
      \<in> measure (\<lambda>(nX, r_max, S, r). length (filter (\<lambda>k. r < k) (map fst S)))"
    unfolding in_measure prod.case keys by (rule lt)
qed

declare S_walk.simps [simp del]

text \<open>
  Lines 219-227: the right bound \<open>r\<close> of the coalesced interval, and \<open>alpha\<close>. When the
  count at \<open>l\<close> is \<open>len(X)\<close>, the count is set to 0, \<open>r\<close> is the next key and \<open>alpha\<close>
  stays \<open>None\<close>; otherwise \<open>r\<close> comes from the walk and \<open>alpha\<close> is a new segment.
\<close>

definition mla_bound ::
  "real \<Rightarrow> real \<Rightarrow> nat \<Rightarrow> int \<Rightarrow> nat \<Rightarrow> simplifier \<Rightarrow> error + (real \<times> nat option \<times> simplifier)" where
  "mla_bound l r_max nX u pop_id s =
     (case S_get (sim_S s) l of
        Inl err \<Rightarrow> Inl err
      | Inr c \<Rightarrow>
          if c = int nX
          then (case succ_key (S_set (sim_S s) l 0) l of
                  Inl err \<Rightarrow> Inl err
                | Inr r \<Rightarrow> Inr (r, None, s\<lparr>sim_S := S_set (sim_S s) l 0\<rparr>))
          else (case S_walk nX r_max (sim_S s) l of
                  Inl err \<Rightarrow> Inl err
                | Inr (r, S1) \<Rightarrow>
                    (case alloc_segment l r u pop_id None None (s\<lparr>sim_S := S1\<rparr>) of
                       Inl err \<Rightarrow> Inl err
                     | Inr (alpha, s1) \<Rightarrow> Inr (r, Some alpha, s1))))"

text \<open>Lines 229-239: \<open>for x in X\<close>, collecting the children and refilling the heap.\<close>

fun mla_children ::
  "real \<Rightarrow> nat list \<Rightarrow> int list \<Rightarrow> heap \<Rightarrow> simplifier \<Rightarrow> int list \<times> heap \<times> simplifier" where
  "mla_children r [] children H s = (children, H, s)"
| "mla_children r (x # X) children H s =
     (if seg_right (seg s x) = r
      then (let s1 = free_segment x s;
                H1 = (case seg_next (seg s1 x) of
                        None \<Rightarrow> H
                      | Some y \<Rightarrow> heappush H (seg_left (seg s1 y), y))
            in mla_children r X (children @ [seg_node (seg s x)]) H1 s1)
      else if seg_right (seg s x) > r
      then (let s1 = set_left x r s
            in mla_children r X (children @ [seg_node (seg s x)])
                 (heappush H (seg_left (seg s1 x), x)) s1)
      else mla_children r X (children @ [seg_node (seg s x)]) H s)"

text \<open>Lines 206-240: a batch \<open>X\<close> of several segments, a coalescence.\<close>

definition mla_coalesce ::
  "real \<Rightarrow> real \<Rightarrow> nat list \<Rightarrow> nat \<Rightarrow> bool \<Rightarrow> heap \<Rightarrow> simplifier
    \<Rightarrow> error + (nat option \<times> bool \<times> heap \<times> simplifier)" where
  "mla_coalesce l r_max X pop_id coalescence H s =
     (case next_node_id coalescence s of
        (coalescence1, u, s1) \<Rightarrow>
          (case S_ensure l (sim_S s1) of
             Inl err \<Rightarrow> Inl err
           | Inr Sa \<Rightarrow>
               (case S_ensure r_max Sa of
                  Inl err \<Rightarrow> Inl err
                | Inr Sb \<Rightarrow>
                    (case mla_bound l r_max (length X) u pop_id (s1\<lparr>sim_S := Sb\<rparr>) of
                       Inl err \<Rightarrow> Inl err
                     | Inr (r, alpha, s2) \<Rightarrow>
                         (case mla_children r X [] H s2 of
                            (children, H1, s3) \<Rightarrow>
                              Inr (alpha, coalescence1, H1,
                                   s3\<lparr>sim_C := sim_C s3 @ [(l, r, u, children, sim_t s3)]\<rparr>))))))"

text \<open>
  Lines 243-254, the loop tail: \<open>alpha\<close> becomes the parent's chain head if it is the
  first of the call, else it is linked behind \<open>z\<close>. The pair is
  \<open>(defrag_required, z)\<close>.
\<close>

definition mla_tail ::
  "int \<Rightarrow> nat \<Rightarrow> nat option \<Rightarrow> bool \<times> nat option \<Rightarrow> simplifier
    \<Rightarrow> error + ((bool \<times> nat option) \<times> simplifier)" where
  "mla_tail parent pop_id alpha dz s =
     (case alpha of
        None \<Rightarrow> Inr (dz, s)
      | Some a \<Rightarrow>
          (case snd dz of
             None \<Rightarrow>
               (case pop_add pop_id a s of
                  Inl err \<Rightarrow> Inl err
                | Inr s1 \<Rightarrow>
                    (let s2 = s1\<lparr>sim_A := (sim_A s1)(parent \<mapsto> a)\<rparr>;
                         s3 = L_set_value a (seg_right (seg s2 a) - seg_left (seg s2 a) - 1) s2
                     in Inr ((fst dz, Some a), set_prev a None s3)))
           | Some z \<Rightarrow>
               (let d = (fst dz \<or> (seg_right (seg s z) = seg_left (seg s a) \<and>
                                     seg_node (seg s z) = seg_node (seg s a)));
                    s1 = set_next z (Some a) s;
                    s2 = L_set_value a (seg_right (seg s1 a) - seg_right (seg s1 z)) s1
                in Inr ((d, Some a), set_prev a (Some z) s2))))"

text \<open>The variables that live across the passes of the loop of lines 179-254.\<close>

record mla_vars =
  h_H :: heap
  h_defrag_required :: bool
  h_coalescence :: bool
  h_z :: "nat option"

text \<open>Lines 182-254, one pass of \<open>while len(H) > 0\<close>.\<close>

definition mla_iteration ::
  "int \<Rightarrow> nat \<Rightarrow> mla_vars \<Rightarrow> simplifier \<Rightarrow> error + (mla_vars \<times> simplifier)" where
  "mla_iteration parent pop_id v s =
     (let l = heap_min (h_H v)
      in case pop_batch l (h_H v) [] (sim_m s + 1) s of
           Inl err \<Rightarrow> Inl err
         | Inr (H1, X, r_max0) \<Rightarrow>
             (let r_max = (if H1 \<noteq> [] then min r_max0 (heap_min H1) else r_max0)
              in case (if length X = 1
                       then (case mla_single (hd X) H1 s of
                               Inl err \<Rightarrow> Inl err
                             | Inr (alpha, H2, s2) \<Rightarrow> Inr (alpha, h_coalescence v, H2, s2))
                       else mla_coalesce l r_max X pop_id (h_coalescence v) H1 s) of
                   Inl err \<Rightarrow> Inl err
                 | Inr (alpha, coalescence1, H2, s2) \<Rightarrow>
                     (case mla_tail parent pop_id alpha (h_defrag_required v, h_z v) s2 of
                        Inl err \<Rightarrow> Inl err
                      | Inr (dz, s3) \<Rightarrow>
                          Inr (\<lparr>h_H = H2, h_defrag_required = fst dz,
                                h_coalescence = coalescence1, h_z = snd dz\<rparr>, s3))))"

text \<open>
  Lines 179-254, the loop; its passes are bounded by fuel, \<open>None\<close> being a loop that
  has not ended within it.
\<close>

fun mla_while ::
  "nat \<Rightarrow> int \<Rightarrow> nat \<Rightarrow> mla_vars \<Rightarrow> simplifier \<Rightarrow> (error + (mla_vars \<times> simplifier)) option" where
  "mla_while 0 parent pop_id v s = None"
| "mla_while (Suc k) parent pop_id v s =
     (if h_H v \<noteq> []
      then (case mla_iteration parent pop_id v s of
              Inl err \<Rightarrow> Some (Inl err)
            | Inr (v1, s1) \<Rightarrow> mla_while k parent pop_id v1 s1)
      else Some (Inr (v, s)))"

text \<open>
  Modelled from the spec: the two defragmentation passes of the base engine (section
  4.2: the chain-defragmentation pass merges abutting same-node segments, the
  breakpoint-defragmentation pass collapses equal adjacent entries of \<open>S\<close>) are not
  among the source files; they are parameters.
\<close>

record base_engine =
  be_defrag_segment_chain :: "nat option \<Rightarrow> simplifier \<Rightarrow> error + simplifier"
  be_defrag_breakpoints :: "simplifier \<Rightarrow> error + simplifier"

definition merge_labeled_ancestors ::
  "base_engine \<Rightarrow> nat \<Rightarrow> heap \<Rightarrow> int \<Rightarrow> nat \<Rightarrow> simplifier \<Rightarrow> (error + simplifier) option" where
  "merge_labeled_ancestors be fuel H parent pop_id s =
     (if pop_id < length (sim_P s)
      then (case mla_while fuel parent pop_id
                   \<lparr>h_H = H, h_defrag_required = False, h_coalescence = False, h_z = None\<rparr> s of
              None \<Rightarrow> None
            | Some (Inl err) \<Rightarrow> Some (Inl err)
            | Some (Inr (v, s1)) \<Rightarrow>
                (case (if h_defrag_required v then be_defrag_segment_chain be (h_z v) s1
                       else Inr s1) of
                   Inl err \<Rightarrow> Some (Inl err)
                 | Inr s2 \<Rightarrow>
                     Some (if h_coalescence v then be_defrag_breakpoints be s2 else Inr s2)))
      else Some (Inl IndexError))"

section \<open>\<open>Simplifier.simplify\<close> (lines 77-84)\<close>

text \<open>
  \<open>ts.edgesets()\<close> is the library's grouping of the edge table; the list it yields is
  the argument \<open>edgesets\<close>. \<open>ts.node(u)\<close> fails for an identifier that is no node.
\<close>

fun simplify_edges ::
  "base_engine \<Rightarrow> nat \<Rightarrow> edgeset list \<Rightarrow> simplifier \<Rightarrow> (error + simplifier) option" where
  "simplify_edges be fuel [] s = Some (Inr s)"
| "simplify_edges be fuel (edge # edges) s =
     (if 0 \<le> es_parent edge \<and> nat (es_parent edge) < length (ts_nodes (sim_ts s))
      then (let s1 = s\<lparr>sim_t := n_time (ts_nodes (sim_ts s) ! nat (es_parent edge))\<rparr>
            in case remove_ancestry fuel edge s1 of
                 None \<Rightarrow> None
               | Some (Inl err) \<Rightarrow> Some (Inl err)
               | Some (Inr (H, s2)) \<Rightarrow>
                   (case merge_labeled_ancestors be fuel H (es_parent edge) (sim_pop_index s2) s2 of
                      None \<Rightarrow> None
                    | Some (Inl err) \<Rightarrow> Some (Inl err)
                    | Some (Inr s3) \<Rightarrow> simplify_edges be fuel edges s3))
      else Some (Inl LibraryError))"

definition simplify ::
  "base_engine \<Rightarrow> nat \<Rightarrow> (tree_sequence \<Rightarrow> edgeset list) \<Rightarrow> simplifier
    \<Rightarrow> (error + simplifier) option" where
  "simplify be fuel edgesets s = simplify_edges be fuel (edgesets (sim_ts s)) s"

section \<open>\<open>run_simplify\<close> (lines 261-277)\<close>

text \<open>
  Modelled from the spec: Python's \<open>random\<close> module keeps one process-wide
  pseudorandom source. Its state is a value of the type \<open>'g\<close>; \<open>random.sample(population,
  k)\<close> reads and advances the state and returns the subset drawn (a \<open>ValueError\<close> when
  \<open>k\<close> is no size of a subset); \<open>random.seed(a)\<close> replaces the state.
\<close>

record 'g random_source =
  rs_sample :: "'g \<Rightarrow> int list \<Rightarrow> int \<Rightarrow> error + (int list \<times> 'g)"
  rs_seed :: "int \<Rightarrow> 'g \<Rightarrow> 'g"

text \<open>The parsed command line, with the tree sequence already loaded from its path.\<close>

record args =
  arg_tree_sequence :: tree_sequence
  arg_sample_size :: int
  arg_random_seed :: int

text \<open>
  Lines 265-269. The result is the subset drawn, the simplifier after \<open>simplify()\<close>
  (from which lines 270-277 write the tables and print the trees) and the state of the
  pseudorandom source. \<open>Simplifier(ts, samples)\<close> takes the default \<open>max_segments=100\<close>.
\<close>

definition run_simplify ::
  "'g random_source \<Rightarrow> base_engine \<Rightarrow> nat \<Rightarrow> (tree_sequence \<Rightarrow> edgeset list) \<Rightarrow> args \<Rightarrow> 'g
    \<Rightarrow> (error + (int list \<times> simplifier \<times> 'g)) option" where
  "run_simplify rs be fuel edgesets a g =
     (let ts = arg_tree_sequence a
      in case rs_sample rs g (ts_samples ts) (arg_sample_size a) of
           Inl err \<Rightarrow> Some (Inl err)
         | Inr (samples, g1) \<Rightarrow>
             (let g2 = rs_seed rs (arg_random_seed a) g1
              in case Simplifier_init ts samples 100 of
                   Inl err \<Rightarrow> Some (Inl err)
                 | Inr s \<Rightarrow>
                     (case simplify be fuel edgesets s of
                        None \<Rightarrow> None
                      | Some (Inl err) \<Rightarrow> Some (Inl err)
                      | Some (Inr s1) \<Rightarrow> Some (Inr (samples, s1, g2)))))"

section \<open>The fixture utilities (\<open>tests/tsutil.py\<close>)\<close>

subsection \<open>The library's tables\<close>

text \<open>
  Modelled from the spec: the four tables a utility edits before it hands them to
  \<open>msprime.load_tables\<close>. The library's own check of the tables (what it accepts as a
  tree sequence) and its canonical sort are not among the source files; they are the
  two parameters of a \<open>tables_library\<close>. \<open>load_tables\<close> fails where the library does not
  accept the tables and else gives the tree sequence made of them, whose sequence
  length, not being passed, is the largest right coordinate of the edges. A table that
  is not passed is empty.
\<close>

record table_collection =
  tc_nodes :: "node_row list"
  tc_edges :: "edge_row list"
  tc_sites :: "site_row list"
  tc_mutations :: "mutation_row list"

record tables_library =
  lib_accepts :: "table_collection \<Rightarrow> bool"
  lib_sort_tables :: "table_collection \<Rightarrow> error + table_collection"

definition dump_tables :: "tree_sequence \<Rightarrow> table_collection" where
  "dump_tables ts = \<lparr>tc_nodes = ts_nodes ts, tc_edges = ts_edges ts, tc_sites = ts_sites ts,
     tc_mutations = ts_mutations ts\<rparr>"

definition load_tables :: "tables_library \<Rightarrow> table_collection \<Rightarrow> error + tree_sequence" where
  "load_tables lib t =
     (if lib_accepts lib t
      then Inr \<lparr>ts_nodes = tc_nodes t, ts_edges = tc_edges t, ts_sites = tc_sites t,
                ts_mutations = tc_mutations t,
                ts_sequence_length = fold max (map e_right (tc_edges t)) 0\<rparr>
      else Inl LibraryError)"

subsection \<open>Python's indexing\<close>

text \<open>
  \<open>xs[i]\<close> and \<open>xs[i] = v\<close> on a list: a negative index counts from the end, an index
  out of range is an \<open>IndexError\<close>.
\<close>

definition py_position :: "nat \<Rightarrow> int \<Rightarrow> nat option" where
  "py_position len i =
     (if 0 \<le> i \<and> i < int len then Some (nat i)
      else if - int len \<le> i \<and> i < 0 then Some (nat (i + int len))
      else None)"

definition py_get :: "'a list \<Rightarrow> int \<Rightarrow> error + 'a" where
  "py_get xs i =
     (case py_position (length xs) i of None \<Rightarrow> Inl IndexError | Some j \<Rightarrow> Inr (xs ! j))"

definition py_set :: "'a list \<Rightarrow> int \<Rightarrow> 'a \<Rightarrow> error + 'a list" where
  "py_set xs i v =
     (case py_position (length xs) i of
        None \<Rightarrow> Inl IndexError
      | Some j \<Rightarrow> Inr (xs[j := v]))"

text \<open>
  A bound of a slice \<open>xs[a:b]\<close> against the length: a negative bound counts from the
  end, and every bound is clipped into \<open>0 .. len\<close>.
\<close>

definition slice_bound :: "nat \<Rightarrow> int \<Rightarrow> nat" where
  "slice_bound len i = (if i < 0 then nat (max 0 (i + int len)) else min (nat i) len)"

text \<open>\<open>xs[a:b] = v\<close> on an array: every position of the slice takes the value \<open>v\<close>.\<close>

definition slice_assign :: "'a list \<Rightarrow> int \<Rightarrow> int \<Rightarrow> 'a \<Rightarrow> 'a list" where
  "slice_assign xs a b v =
     (let lo = slice_bound (length xs) a; hi = slice_bound (length xs) b
      in if lo < hi then take lo xs @ replicate (hi - lo) v @ drop hi xs else xs)"

text \<open>A loop that builds a list and stops at the first error.\<close>

fun map_err :: "('a \<Rightarrow> error + 'b) \<Rightarrow> 'a list \<Rightarrow> error + 'b list" where
  "map_err f [] = Inr []"
| "map_err f (x # xs) =
     (case f x of
        Inl err \<Rightarrow> Inl err
      | Inr y \<Rightarrow> (case map_err f xs of Inl err \<Rightarrow> Inl err | Inr ys \<Rightarrow> Inr (y # ys)))"

subsection \<open>\<open>insert_redundant_breakpoints\<close> (lines 135-149)\<close>





subsection \<open>\<open>jiggle_samples\<close> (lines 181-195)\<close>

text \<open>
  Modelled from the spec: \<open>NodeTable.set_columns(flags, time)\<close> of the library replaces
  the whole table by rows of the two columns given; the columns that are not given
  (population and name) take the library's defaults, the null population and the empty
  name. Columns of different lengths are a \<open>ValueError\<close>.
\<close>

definition set_columns :: "nat list \<Rightarrow> real list \<Rightarrow> error + node_row list" where
  "set_columns flags time =
     (if length flags = length time
      then Inr (map (\<lambda>(f, t). \<lparr>n_flags = f, n_name = [], n_population = NULL_POPULATION,
                                n_time = t\<rparr>) (zip flags time))
      else Inl ValueError)"

text \<open>\<open>ts.sample_size\<close> is the number of samples.\<close>

definition sample_size :: "tree_sequence \<Rightarrow> int" where
  "sample_size ts = int (length (ts_samples ts))"

text \<open>
  Lines 187-194: the tables handed to \<open>load_tables\<close>, the node table rebuilt from the
  flags and the times, and the edge table; no site table and no mutation table.
\<close>

definition jiggle_tables :: "tree_sequence \<Rightarrow> error + table_collection" where
  "jiggle_tables ts =
     (let tables = dump_tables ts;
          nodes = tc_nodes tables;
          flags = map n_flags nodes
      in case py_get (map e_parent (tc_edges tables)) (- 1) of
           Inl err \<Rightarrow> Inl err
         | Inr oldest_parent \<Rightarrow>
             (let n = sample_size ts;
                  flags1 = slice_assign flags 0 (n div 2) 0;
                  flags2 = slice_assign flags1 (oldest_parent - n div 2) oldest_parent 1
              in case set_columns flags2 (map n_time nodes) of
                   Inl err \<Rightarrow> Inl err
                 | Inr nodes1 \<Rightarrow>
                     Inr \<lparr>tc_nodes = nodes1, tc_edges = tc_edges tables,
                       tc_sites = [], tc_mutations = []\<rparr>))"

definition jiggle_samples :: "tables_library \<Rightarrow> tree_sequence \<Rightarrow> error + tree_sequence" where
  "jiggle_samples lib ts =
     (case jiggle_tables ts of
        Inl err \<Rightarrow> Inl err
      | Inr tables \<Rightarrow> load_tables lib tables)"

subsection \<open>\<open>permute_nodes\<close> (lines 99-132)\<close>

text \<open>Lines 105-107: \<open>reverse_map[node_map[j]] = j\<close> for the values of \<open>j\<close> still to come.\<close>

fun fill_reverse_map :: "int list \<Rightarrow> nat list \<Rightarrow> int list \<Rightarrow> error + int list" where
  "fill_reverse_map node_map [] reverse_map = Inr reverse_map"
| "fill_reverse_map node_map (j # js) reverse_map =
     (case py_get node_map (int j) of
        Inl err \<Rightarrow> Inl err
      | Inr target \<Rightarrow>
          (case py_set reverse_map target (int j) of
             Inl err \<Rightarrow> Inl err
           | Inr reverse_map1 \<Rightarrow> fill_reverse_map node_map js reverse_map1))"

text \<open>
  Lines 122-128: \<open>site.mutations\<close> are the mutation rows of the site, in the order of
  the table; each is added again with the site, the derived state and the relabelled
  node, and with no parent, which \<open>add_row\<close> then takes to be the null mutation.
\<close>

definition permute_site_mutations :: "tree_sequence \<Rightarrow> int list \<Rightarrow> nat \<Rightarrow> error + mutation_row list" where
  "permute_site_mutations ts node_map site_index =
     map_err (\<lambda>mutation.
        case py_get node_map (m_node mutation) of
          Inl err \<Rightarrow> Inl err
        | Inr nd \<Rightarrow> Inr \<lparr>m_site = int site_index, m_node = nd,
                          m_derived_state = m_derived_state mutation,
                          m_parent = NULL_MUTATION\<rparr>)
       (filter (\<lambda>mutation. m_site mutation = int site_index) (ts_mutations ts))"

text \<open>Lines 105-128: the four new tables, before they are sorted.\<close>

definition permute_tables :: "tree_sequence \<Rightarrow> int list \<Rightarrow> error + table_collection" where
  "permute_tables ts node_map =
     (let num_nodes = length (ts_nodes ts)
      in case fill_reverse_map node_map [0..<num_nodes] (map (\<lambda>_. 0) node_map) of
           Inl err \<Rightarrow> Inl err
         | Inr reverse_map \<Rightarrow>
             (case map_err (\<lambda>j. case py_get reverse_map (int j) of
                                   Inl err \<Rightarrow> Inl err
                                 | Inr old \<Rightarrow> py_get (ts_nodes ts) old) [0..<num_nodes] of
                Inl err \<Rightarrow> Inl err
              | Inr new_nodes \<Rightarrow>
                  (case map_err (\<lambda>edge.
                            case py_get node_map (e_parent edge) of
                              Inl err \<Rightarrow> Inl err
                            | Inr p \<Rightarrow>
                                (case py_get node_map (e_child edge) of
                                   Inl err \<Rightarrow> Inl err
                                 | Inr c \<Rightarrow> Inr \<lparr>e_left = e_left edge, e_right = e_right edge,
                                                 e_parent = p, e_child = c\<rparr>))
                          (ts_edges ts) of
                     Inl err \<Rightarrow> Inl err
                   | Inr new_edges \<Rightarrow>
                       (case map_err (permute_site_mutations ts node_map)
                               [0..<length (ts_sites ts)] of
                          Inl err \<Rightarrow> Inl err
                        | Inr per_site \<Rightarrow>
                            Inr \<lparr>tc_nodes = new_nodes, tc_edges = new_edges,
                                 tc_sites = ts_sites ts,
                                 tc_mutations = concat per_site\<rparr>))))"

definition permute_nodes ::
  "tables_library \<Rightarrow> tree_sequence \<Rightarrow> int list \<Rightarrow> error + tree_sequence" where
  "permute_nodes lib ts node_map =
     (case permute_tables ts node_map of
        Inl err \<Rightarrow> Inl err
      | Inr tables \<Rightarrow>
          (case lib_sort_tables lib tables of
             Inl err \<Rightarrow> Inl err
           | Inr sorted_tables \<Rightarrow> load_tables lib sorted_tables))"

subsection \<open>\<open>insert_branch_mutations\<close> (lines 66-96)\<close>

text \<open>
  Modelled from the spec: a tree of \<open>ts.trees()\<close>, as far as \<open>insert_branch_mutations\<close>
  reads it: its interval, its roots, and the children and the parent of a node
  (\<open>NULL_NODE\<close> for a root). The trees of a tree sequence are made by the library, which
  is not among the source files: they are a parameter.
\<close>

record sparse_tree =
  tree_interval :: "real \<times> real"
  tree_roots :: "int list"
  tree_children :: "int \<Rightarrow> int list"
  tree_parent :: "int \<Rightarrow> int"

text \<open>\<open>str(i)\<close> on an integer.\<close>

definition digit :: "nat \<Rightarrow> char" where
  "digit d = ''0123456789'' ! d"

fun str_nat :: "nat \<Rightarrow> string" where
  "str_nat n = (if n < 10 then [digit n] else str_nat (n div 10) @ [digit (n mod 10)])"

definition str_int :: "int \<Rightarrow> string" where
  "str_int i = (if i < 0 then CHR ''-'' # str_nat (nat (- i)) else str_nat (nat i))"

text \<open>
  Lines 88-93: the loop \<open>for j in range(mutations_per_branch)\<close>, with the number of rounds
  left as first argument. \<open>state\<close> and \<open>mutation\<close> are the two dictionaries.
\<close>

fun ibm_rows ::
  "nat \<Rightarrow> int \<Rightarrow> int \<Rightarrow> (int \<rightharpoonup> int) \<Rightarrow> (int \<rightharpoonup> int) \<Rightarrow> mutation_row list \<Rightarrow> int
   \<Rightarrow> error + ((int \<rightharpoonup> int) \<times> (int \<rightharpoonup> int) \<times> mutation_row list)" where
  "ibm_rows 0 site u state mutation mutations parent = Inr (state, mutation, mutations)"
| "ibm_rows (Suc j) site u state mutation mutations parent =
     (case state u of
        None \<Rightarrow> Inl KeyError
      | Some x \<Rightarrow>
          let state1 = state(u \<mapsto> (x + 1) mod 2);
              mutation1 = mutation(u \<mapsto> int (length mutations));
              row = \<lparr>m_site = site, m_node = u, m_derived_state = str_int ((x + 1) mod 2),
                     m_parent = parent\<rparr>
          in ibm_rows j site u state1 mutation1 (mutations @ [row]) (int (length mutations)))"

text \<open>Lines 85-93: what is done for a node \<open>u\<close> whose parent \<open>v\<close> is not null.\<close>

definition ibm_branch ::
  "int \<Rightarrow> int \<Rightarrow> int \<Rightarrow> int \<Rightarrow> (int \<rightharpoonup> int) \<Rightarrow> (int \<rightharpoonup> int) \<Rightarrow> mutation_row list
   \<Rightarrow> error + ((int \<rightharpoonup> int) \<times> (int \<rightharpoonup> int) \<times> mutation_row list)" where
  "ibm_branch site mutations_per_branch u v state mutation mutations =
     (case state v of
        None \<Rightarrow> Inl KeyError
      | Some sv \<Rightarrow>
          (case mutation v of
             None \<Rightarrow> Inl KeyError
           | Some parent \<Rightarrow>
               ibm_rows (nat mutations_per_branch) site u (state(u \<mapsto> sv)) mutation mutations
                 parent))"

text \<open>
  Lines 80-93: the loop \<open>while len(stack) > 0\<close>. The stack is kept top first, so
  \<open>stack.extend(children)\<close> puts the reversed children in front. The loop has no bound in
  the source; the fuel counts its rounds, and \<open>None\<close> is a run that is not over when the
  fuel is.
\<close>

fun ibm_walk ::
  "nat \<Rightarrow> sparse_tree \<Rightarrow> int \<Rightarrow> int \<Rightarrow> int list \<Rightarrow> (int \<rightharpoonup> int) \<Rightarrow> (int \<rightharpoonup> int)
   \<Rightarrow> mutation_row list \<Rightarrow> (error + mutation_row list) option" where
  "ibm_walk fuel tree site mutations_per_branch [] state mutation mutations =
     Some (Inr mutations)"
| "ibm_walk 0 tree site mutations_per_branch (u # stack) state mutation mutations = None"
| "ibm_walk (Suc fuel) tree site mutations_per_branch (u # stack) state mutation mutations =
     (let stack1 = rev (tree_children tree u) @ stack;
          v = tree_parent tree u
      in if v \<noteq> NULL_NODE
         then (case ibm_branch site mutations_per_branch u v state mutation mutations of
                 Inl err \<Rightarrow> Some (Inl err)
               | Inr (state1, mutation1, mutations1) \<Rightarrow>
                   ibm_walk fuel tree site mutations_per_branch stack1 state1 mutation1
                     mutations1)
         else ibm_walk fuel tree site mutations_per_branch stack1 state mutation mutations)"

text \<open>Lines 76-93: the loop \<open>for root in tree.roots\<close>, the root being \<open>r\<close>.\<close>

fun ibm_roots ::
  "nat \<Rightarrow> sparse_tree \<Rightarrow> int \<Rightarrow> int \<Rightarrow> int list \<Rightarrow> mutation_row list
   \<Rightarrow> (error + mutation_row list) option" where
  "ibm_roots fuel tree site mutations_per_branch [] mutations = Some (Inr mutations)"
| "ibm_roots fuel tree site mutations_per_branch (r # roots) mutations =
     (case ibm_walk fuel tree site mutations_per_branch [r] [r \<mapsto> 0] [r \<mapsto> - 1]
             mutations of
        None \<Rightarrow> None
      | Some (Inl err) \<Rightarrow> Some (Inl err)
      | Some (Inr mutations1) \<Rightarrow> ibm_roots fuel tree site mutations_per_branch roots mutations1)"

text \<open>Lines 73-93: the loop \<open>for tree in ts.trees()\<close>, which adds the site of the tree.\<close>

fun ibm_trees ::
  "nat \<Rightarrow> int \<Rightarrow> sparse_tree list \<Rightarrow> site_row list \<Rightarrow> mutation_row list
   \<Rightarrow> (error + (site_row list \<times> mutation_row list)) option" where
  "ibm_trees fuel mutations_per_branch [] sites mutations = Some (Inr (sites, mutations))"
| "ibm_trees fuel mutations_per_branch (tree # trees) sites mutations =
     (let site = int (length sites);
          sites1 = sites @ [\<lparr>s_position = fst (tree_interval tree), s_ancestral_state = ''0''\<rparr>]
      in case ibm_roots fuel tree site mutations_per_branch (tree_roots tree) mutations of
           None \<Rightarrow> None
         | Some (Inl err) \<Rightarrow> Some (Inl err)
         | Some (Inr mutations1) \<Rightarrow> ibm_trees fuel mutations_per_branch trees sites1 mutations1)"

text \<open>
  \<open>insert_branch_mutations(ts, mutations_per_branch)\<close>; \<open>trees\<close> is \<open>ts.trees()\<close>, and the
  fuel bounds each walk below a root.
\<close>

definition insert_branch_mutations ::
  "tables_library \<Rightarrow> (tree_sequence \<Rightarrow> sparse_tree list) \<Rightarrow> nat \<Rightarrow> tree_sequence \<Rightarrow> int
   \<Rightarrow> (error + tree_sequence) option" where
  "insert_branch_mutations lib trees fuel ts mutations_per_branch =
     (case ibm_trees fuel mutations_per_branch (trees ts) [] [] of
        None \<Rightarrow> None
      | Some (Inl err) \<Rightarrow> Some (Inl err)
      | Some (Inr (sites, mutations)) \<Rightarrow>
          Some (load_tables lib
            \<lparr>tc_nodes = ts_nodes ts, tc_edges = ts_edges ts, tc_sites = sites,
             tc_mutations = mutations\<rparr>))"

section \<open>Concrete inputs\<close>

definition example_ts :: tree_sequence where
  "example_ts = \<lparr>
     ts_nodes = [\<lparr>n_flags = 1, n_name = ''a'', n_population = 0, n_time = 0\<rparr>,
                 \<lparr>n_flags = 1, n_name = ''b'', n_population = 0, n_time = 0\<rparr>,
                 \<lparr>n_flags = 1, n_name = ''c'', n_population = 0, n_time = 0\<rparr>,
                 \<lparr>n_flags = 0, n_name = ''d'', n_population = 0, n_time = 1\<rparr>,
                 \<lparr>n_flags = 0, n_name = ''e'', n_population = 0, n_time = 2\<rparr>],
     ts_edges = [\<lparr>e_left = 0, e_right = 10, e_parent = 3, e_child = 0\<rparr>,
                 \<lparr>e_left = 0, e_right = 10, e_parent = 3, e_child = 1\<rparr>,
                 \<lparr>e_left = 0, e_right = 10, e_parent = 4, e_child = 2\<rparr>,
                 \<lparr>e_left = 0, e_right = 10, e_parent = 4, e_child = 3\<rparr>],
     ts_sites = [], ts_mutations = [], ts_sequence_length = 10\<rparr>"

section \<open>Notions used in the statements and proofs\<close>

text \<open>The values of \<open>k\<close> in a range that the constructor keeps, in the order it meets them.\<close>

definition kept :: "int list \<Rightarrow> nat list \<Rightarrow> nat list" where
  "kept samples ks = filter (\<lambda>k. int k \<in> set samples) ks"

text \<open>What the loop of lines 64-69 has done to the state \<open>s\<close> when it ends in \<open>s'\<close>.\<close>

definition init_post :: "int list \<Rightarrow> nat list \<Rightarrow> simplifier \<Rightarrow> simplifier \<Rightarrow> bool" where
  "init_post samples ks s s' \<longleftrightarrow>
     sim_segment_stack s' = drop (length (kept samples ks)) (sim_segment_stack s) \<and>
     sim_P s' = (sim_P s)[sim_pop_index s := (sim_P s ! sim_pop_index s) @
        take (length (kept samples ks)) (sim_segment_stack s)] \<and>
     sim_A s' = (sim_A s)(map int (kept samples ks) [\<mapsto>]
        take (length (kept samples ks)) (sim_segment_stack s)) \<and>
     (\<forall>j < length (kept samples ks).
        sim_segments s' (sim_segment_stack s ! j) =
          \<lparr>seg_left = 0, seg_right = sim_m s, seg_node = int (kept samples ks ! j),
           seg_population = sim_pop_index s, seg_prev = None, seg_next = None\<rparr> \<and>
        sim_L s' (sim_segment_stack s ! j) = sim_m s - 1) \<and>
     (\<forall>x. x \<notin> set (take (length (kept samples ks)) (sim_segment_stack s)) \<longrightarrow>
        sim_segments s' x = sim_segments s x \<and> sim_L s' x = sim_L s x) \<and>
     sim_m s' = sim_m s \<and> sim_n s' = sim_n s \<and> sim_pop_index s' = sim_pop_index s \<and>
     sim_C s' = sim_C s \<and> sim_S s' = sim_S s \<and> sim_ts s' = sim_ts s \<and>
     sim_max_segments s' = sim_max_segments s"

text \<open>
  The heap of a child's walk against the heap \<open>H0\<close> it started from: untouched while
  \<open>output_head\<close> holds, and one entry longer once it does not.
\<close>

definition pushed_once :: "heap \<Rightarrow> ra_vars \<Rightarrow> bool" where
  "pushed_once H0 v \<longleftrightarrow>
     (v_output_head v \<longrightarrow> v_H v = H0) \<and>
     (\<not> v_output_head v \<longrightarrow> (\<exists>entry. v_H v = H0 @ [entry]))"

text \<open>Following \<open>next\<close> from \<open>x\<close> reaches \<open>None\<close> within \<open>n\<close> steps.\<close>

fun chain_ends :: "nat \<Rightarrow> simplifier \<Rightarrow> nat option \<Rightarrow> bool" where
  "chain_ends 0 s x = (x = None)"
| "chain_ends (Suc n) s x =
     (case x of None \<Rightarrow> True | Some i \<Rightarrow> chain_ends n s (seg_next (seg s i)))"

text \<open>From \<open>s\<close> to \<open>s'\<close> every \<open>next\<close> reference is kept or set to \<open>None\<close>.\<close>

definition next_cut :: "simplifier \<Rightarrow> simplifier \<Rightarrow> bool" where
  "next_cut s s' \<longleftrightarrow>
     (\<forall>i. seg_next (seg s' i) = seg_next (seg s i) \<or> seg_next (seg s' i) = None)"

text \<open>
  The first segment after the removed run, as the wrap-up has it (lines 156-157): the
  fresh right residue when the run ended in a right overhang, else the segment the walk
  stopped at; \<open>None\<close> when there is none.
\<close>

definition wrapup_z :: "ra_vars \<Rightarrow> nat option" where
  "wrapup_z v = (if v_overhang_right v then v_z v else v_x v)"

text \<open>
  An edge over \<open>[0, 4)\<close> and one over the whole sequence, both with parent 3 and
  children 0 and 1, and the simplifier built over the kept samples 0, 1, 2 in an arena
  of 8 segments.
\<close>

definition example_edge :: edgeset where
  "example_edge = \<lparr>es_left = 0, es_right = 4, es_parent = 3, es_children = [0, 1]\<rparr>"

definition example_edge_full :: edgeset where
  "example_edge_full = \<lparr>es_left = 0, es_right = 10, es_parent = 3, es_children = [0, 1]\<rparr>"

definition example_sim :: simplifier where
  "example_sim = (case Simplifier_init example_ts [0, 1, 2] 8 of Inr s \<Rightarrow> s)"

text \<open>What a call of \<open>mla_bound\<close> shows: \<open>r\<close>, \<open>alpha\<close>, the free stack and \<open>S\<close>.\<close>

definition bound_view ::
  "error + (real \<times> nat option \<times> simplifier)
    \<Rightarrow> (real \<times> nat option \<times> nat list \<times> (real \<times> int) list) option" where
  "bound_view res =
     (case res of
        Inl err \<Rightarrow> None
      | Inr (r, alpha, s) \<Rightarrow> Some (r, alpha, sim_segment_stack s, sim_S s))"

definition example_sim_walk :: simplifier where
  "example_sim_walk = example_sim\<lparr>sim_S := [(0, 3), (4, 2), (10, - 1)]\<rparr>"

text \<open>What the constructor shows of \<open>S\<close> and of the counter \<open>w\<close>.\<close>

definition init_view :: "error + simplifier \<Rightarrow> ((real \<times> int) list \<times> int) option" where
  "init_view res = (case res of Inl err \<Rightarrow> None | Inr s \<Rightarrow> Some (sim_S s, sim_w s))"

text \<open>
  A pseudorandom source for the examples: the state is a number, a draw of \<open>k\<close> takes
  the first \<open>k\<close> members of the population rotated by the state and steps the state,
  and seeding sets the state to the seed.
\<close>

definition example_random :: "nat random_source" where
  "example_random = \<lparr>
     rs_sample = (\<lambda>g population k.
        if 0 \<le> k \<and> nat k \<le> length population
        then Inr (take (nat k) (rotate g population), Suc g)
        else Inl ValueError),
     rs_seed = (\<lambda>a g. nat a)\<rparr>"

definition example_engine :: base_engine where
  "example_engine = \<lparr>be_defrag_segment_chain = (\<lambda>z s. Inr s),
     be_defrag_breakpoints = (\<lambda>s. Inr s)\<rparr>"

definition example_edgesets :: "tree_sequence \<Rightarrow> edgeset list" where
  "example_edgesets ts =
     [\<lparr>es_left = 0, es_right = 10, es_parent = 3, es_children = [0, 1]\<rparr>,
      \<lparr>es_left = 0, es_right = 10, es_parent = 4, es_children = [2, 3]\<rparr>]"

definition example_args :: "int \<Rightarrow> args" where
  "example_args seed = \<lparr>arg_tree_sequence = example_ts, arg_sample_size = 2,
     arg_random_seed = seed\<rparr>"

text \<open>What a run shows apart from the pseudorandom source: the subset and the output.\<close>

definition run_view ::
  "(error + (int list \<times> simplifier \<times> 'g)) option \<Rightarrow> (error + (int list \<times> simplifier)) option" where
  "run_view res = map_option (map_sum id (\<lambda>(samples, s, g). (samples, s))) res"





text \<open>A library that accepts every set of tables and sorts nothing.\<close>

definition example_library :: tables_library where
  "example_library = \<lparr>lib_accepts = (\<lambda>t. True), lib_sort_tables = (\<lambda>t. Inr t)\<rparr>"

text \<open>Two samples 0 and 1 under the root 2.\<close>

definition example_ts2 :: tree_sequence where
  "example_ts2 = \<lparr>
     ts_nodes = [\<lparr>n_flags = 1, n_name = ''a'', n_population = 0, n_time = 0\<rparr>,
                 \<lparr>n_flags = 1, n_name = ''b'', n_population = 0, n_time = 0\<rparr>,
                 \<lparr>n_flags = 0, n_name = ''c'', n_population = 0, n_time = 1\<rparr>],
     ts_edges = [\<lparr>e_left = 0, e_right = 10, e_parent = 2, e_child = 0\<rparr>,
                 \<lparr>e_left = 0, e_right = 10, e_parent = 2, e_child = 1\<rparr>],
     ts_sites = [], ts_mutations = [], ts_sequence_length = 10\<rparr>"

text \<open>What a utility's result shows of the samples: their identifiers.\<close>

definition samples_view :: "error + tree_sequence \<Rightarrow> int list option" where
  "samples_view res = (case res of Inl err \<Rightarrow> None | Inr ts \<Rightarrow> Some (ts_samples ts))"

text \<open>
  The example tree sequence with one site and two mutations, the second a back
  mutation on node 0 whose parent is the first mutation, on node 3.
\<close>

definition example_ts_mut :: tree_sequence where
  "example_ts_mut = example_ts\<lparr>
     ts_sites := [\<lparr>s_position = 1, s_ancestral_state = ''0''\<rparr>],
     ts_mutations := [\<lparr>m_site = 0, m_node = 3, m_derived_state = ''1'', m_parent = - 1\<rparr>,
                      \<lparr>m_site = 0, m_node = 0, m_derived_state = ''0'', m_parent = 0\<rparr>]\<rparr>"

text \<open>\<open>permute_nodes(ts, m)\<close> followed by \<open>permute_nodes(_, m_inv)\<close>.\<close>

definition permute_round_trip ::
  "tables_library \<Rightarrow> tree_sequence \<Rightarrow> int list \<Rightarrow> int list \<Rightarrow> error + tree_sequence" where
  "permute_round_trip lib ts m m_inv =
     (case permute_nodes lib ts m of
        Inl err \<Rightarrow> Inl err
      | Inr ts1 \<Rightarrow> permute_nodes lib ts1 m_inv)"

text \<open>What a result shows of its four tables.\<close>

definition tables_view :: "error + tree_sequence \<Rightarrow> table_collection option" where
  "tables_view res = (case res of Inl err \<Rightarrow> None | Inr ts \<Rightarrow> Some (dump_tables ts))"

text \<open>
  The chain of a segment as \<open>merge_labeled_ancestors\<close> walks it (lines 199-201): the
  intervals of the segments reached along \<open>next\<close>, at most as many as the fuel says.
\<close>

fun chain_intervals :: "nat \<Rightarrow> simplifier \<Rightarrow> nat option \<Rightarrow> (real \<times> real) list" where
  "chain_intervals 0 s x = []"
| "chain_intervals (Suc k) s x =
     (case x of
        None \<Rightarrow> []
      | Some i \<Rightarrow> (seg_left (seg s i), seg_right (seg s i))
                   # chain_intervals k s (seg_next (seg s i)))"

text \<open>
  What a call of \<open>remove_ancestry\<close> shows of a child: the entries of the heap returned,
  each with the chain of its segment, and the chain that the child's entry of the
  Ancestor Index Map points to.
\<close>

definition ancestry_view ::
  "int \<Rightarrow> (error + (heap \<times> simplifier)) option
   \<Rightarrow> ((real \<times> (real \<times> real) list) list \<times> (real \<times> real) list) option" where
  "ancestry_view child res =
     (case res of
        Some (Inr (H, s)) \<Rightarrow>
          Some (map (\<lambda>(l, w). (l, chain_intervals 8 s (Some w))) H,
                chain_intervals 8 s (sim_A s child))
      | _ \<Rightarrow> None)"

text \<open>
  Three edges with the one child 0: over \<open>[4, 6)\<close>, over \<open>[2, 8)\<close> and over \<open>[0, 4)\<close>; and
  the simplifier of the example after \<open>remove_ancestry\<close> for the first of them, where
  the chain of the child 0 is \<open>[0, 4)\<close>, \<open>[6, 10)\<close>.
\<close>

definition gap_edge :: edgeset where
  "gap_edge = \<lparr>es_left = 4, es_right = 6, es_parent = 3, es_children = [0]\<rparr>"

definition span_edge :: edgeset where
  "span_edge = \<lparr>es_left = 2, es_right = 8, es_parent = 4, es_children = [0]\<rparr>"

definition head_edge :: edgeset where
  "head_edge = \<lparr>es_left = 0, es_right = 4, es_parent = 4, es_children = [0]\<rparr>"

definition gapped_sim :: simplifier where
  "gapped_sim = (case remove_ancestry 3 gap_edge example_sim of
                   Some (Inr (H, s)) \<Rightarrow> s
                 | _ \<Rightarrow> example_sim)"

section \<open>The constructor\<close>

lemma init_samples_spec:
  assumes "distinct ks" and "distinct (sim_segment_stack s)"
    and "length (kept samples ks) \<le> length (sim_segment_stack s)"
    and "sim_pop_index s < length (sim_P s)"
  shows "\<exists>s'. init_samples samples ks s = Inr s' \<and> init_post samples ks s s'"
  using assms
proof (induction ks arbitrary: s)
  case Nil
  then show ?case by (simp add: init_post_def kept_def)
next
  case (Cons k ks)
  show ?case
  proof (cases "int k \<in> set samples")
    case False
    with Cons.prems Cons.IH[of s] show ?thesis by (simp add: init_post_def kept_def)
  next
    case True
    with Cons.prems obtain i rest where st: "sim_segment_stack s = i # rest"
      by (cases "sim_segment_stack s") (auto simp: kept_def)
    define s2 where "s2 = (L_set_value i (sim_m s - 1)
        (s\<lparr>sim_segment_stack := rest,
           sim_segments := (sim_segments s)
             (i := \<lparr>seg_left = 0, seg_right = sim_m s, seg_node = int k,
                    seg_population = sim_pop_index s, seg_prev = None, seg_next = None\<rparr>)\<rparr>))
        \<lparr>sim_P := (sim_P s)[sim_pop_index s := (sim_P s ! sim_pop_index s) @ [i]]\<rparr>
        \<lparr>sim_A := (sim_A s)(int k \<mapsto> i)\<rparr>"
    have step: "init_samples samples (k # ks) s = init_samples samples ks s2"
      using True st Cons.prems(4)
      by (simp add: alloc_segment_def pop_add_def L_set_value_def s2_def)
    have kp: "kept samples (k # ks) = k # kept samples ks"
      using True by (simp add: kept_def)
    have pre: "distinct ks" "distinct (sim_segment_stack s2)"
      "length (kept samples ks) \<le> length (sim_segment_stack s2)"
      "sim_pop_index s2 < length (sim_P s2)"
      using Cons.prems True st by (simp_all add: s2_def L_set_value_def kept_def)
    from Cons.IH[OF pre] obtain s' where s':
      "init_samples samples ks s2 = Inr s'" and post: "init_post samples ks s2 s'"
      by blast
    have s2f: "sim_segment_stack s2 = rest" "sim_m s2 = sim_m s" "sim_n s2 = sim_n s"
      "sim_pop_index s2 = sim_pop_index s" "sim_C s2 = sim_C s" "sim_S s2 = sim_S s"
      "sim_ts s2 = sim_ts s" "sim_max_segments s2 = sim_max_segments s"
      "sim_P s2 = (sim_P s)[sim_pop_index s := (sim_P s ! sim_pop_index s) @ [i]]"
      "sim_A s2 = (sim_A s)(int k \<mapsto> i)"
      "sim_segments s2 = (sim_segments s)
             (i := \<lparr>seg_left = 0, seg_right = sim_m s, seg_node = int k,
                    seg_population = sim_pop_index s, seg_prev = None, seg_next = None\<rparr>)"
      "sim_L s2 = (sim_L s)(i := sim_m s - 1)"
      by (simp_all add: s2_def L_set_value_def)
    have inotin: "i \<notin> set rest" using Cons.prems(2) st by simp
    then have inotin': "i \<notin> set (take (length (kept samples ks)) rest)"
      by (meson in_set_takeD)
    have "init_post samples (k # ks) s s'"
      unfolding init_post_def kp
    proof (intro conjI allI impI)
      show "sim_segment_stack s' = drop (length (k # kept samples ks)) (sim_segment_stack s)"
        using post by (simp add: init_post_def s2f st)
      show "sim_P s' = (sim_P s)[sim_pop_index s := sim_P s ! sim_pop_index s @
              take (length (k # kept samples ks)) (sim_segment_stack s)]"
        using post Cons.prems(4) by (simp add: init_post_def s2f st)
      show "sim_A s' = (sim_A s)(map int (k # kept samples ks) [\<mapsto>]
              take (length (k # kept samples ks)) (sim_segment_stack s))"
        using post by (simp add: init_post_def s2f st)
    next
      fix j assume j: "j < length (k # kept samples ks)"
      show "sim_segments s' (sim_segment_stack s ! j) =
          \<lparr>seg_left = 0, seg_right = sim_m s, seg_node = int ((k # kept samples ks) ! j),
           seg_population = sim_pop_index s, seg_prev = None, seg_next = None\<rparr>"
      proof (cases j)
        case 0
        then show ?thesis using post inotin' by (simp add: init_post_def s2f st)
      next
        case (Suc j')
        then show ?thesis using post j by (simp add: init_post_def s2f st)
      qed
      show "sim_L s' (sim_segment_stack s ! j) = sim_m s - 1"
      proof (cases j)
        case 0
        then show ?thesis using post inotin' by (simp add: init_post_def s2f st)
      next
        case (Suc j')
        then show ?thesis using post j by (simp add: init_post_def s2f st)
      qed
    next
      fix x assume x: "x \<notin> set (take (length (k # kept samples ks)) (sim_segment_stack s))"
      then have "x \<noteq> i" "x \<notin> set (take (length (kept samples ks)) rest)"
        by (simp_all add: st)
      then show "sim_segments s' x = sim_segments s x" "sim_L s' x = sim_L s x"
        using post by (simp_all add: init_post_def s2f)
    qed (use post in \<open>simp_all add: init_post_def s2f\<close>)
    with step s' show ?thesis by simp
  qed
qed

lemma map_upds_nth:
  "distinct xs \<Longrightarrow> length xs = length ys \<Longrightarrow> j < length xs \<Longrightarrow>
     (m(xs [\<mapsto>] ys)) (xs ! j) = Some (ys ! j)"
proof (induction xs arbitrary: ys m j)
  case Nil
  then show ?case by simp
next
  case (Cons a as)
  then obtain b bs where ys: "ys = b # bs" by (cases ys) auto
  show ?case
  proof (cases j)
    case 0
    with Cons.prems ys show ?thesis by simp
  next
    case (Suc j')
    have "((m(a \<mapsto> b))(as [\<mapsto>] bs)) (as ! j') = Some (bs ! j')"
      by (rule Cons.IH) (use Cons.prems ys Suc in simp_all)
    then show ?thesis
      unfolding ys Suc nth_Cons_Suc map_upds_Cons .
  qed
qed

lemma fold_Cons_rev: "fold (\<lambda>j st. f j # st) xs acc = rev (map f xs) @ acc"
  by (induction xs arbitrary: acc) simp_all

lemma initial_stack_eq: "initial_stack N = rev (map Suc [0..<N])"
  by (simp add: initial_stack_def fold_Cons_rev)

lemma distinct_initial_stack: "distinct (initial_stack N)"
  by (simp add: initial_stack_eq distinct_map)

lemma length_initial_stack: "length (initial_stack N) = N"
  by (simp add: initial_stack_eq)

lemma set_kept: "int ` set (kept samples [0..<n]) = {k. 0 \<le> k \<and> k < int n \<and> k \<in> set samples}"
proof (intro set_eqI iffI)
  fix k assume "k \<in> int ` set (kept samples [0..<n])"
  then show "k \<in> {k. 0 \<le> k \<and> k < int n \<and> k \<in> set samples}"
    by (auto simp: kept_def)
next
  fix k assume "k \<in> {k. 0 \<le> k \<and> k < int n \<and> k \<in> set samples}"
  then have "nat k \<in> set (kept samples [0..<n])" "int (nat k) = k"
    by (auto simp: kept_def)
  then show "k \<in> int ` set (kept samples [0..<n])"
    by (metis imageI)
qed

lemma distinct_kept: "distinct (kept samples [0..<n])"
  by (simp add: kept_def)

lemma length_kept: "length (kept samples [0..<n]) = card {k. 0 \<le> k \<and> k < int n \<and> k \<in> set samples}"
proof -
  have "length (kept samples [0..<n]) = card (set (kept samples [0..<n]))"
    by (simp add: distinct_card distinct_kept)
  also have "\<dots> = card (int ` set (kept samples [0..<n]))"
    by (simp add: card_image)
  finally show ?thesis by (simp add: set_kept)
qed

text \<open>
  Claim C10. The constructor allocates a full-interval segment and an Ancestor Index
  Map entry exactly for the members \<open>k\<close> of the kept-sample list with
  \<open>0 \<le> k < len(ts.samples())\<close>; every other identifier in the list is ignored
  without an error. Whenever those members fit the arena, the constructor returns; the
  keys of \<open>A\<close> are exactly those members; each has its own segment
  \<open>[0, sequence_length)\<close> tagged with its identifier, registered in the population and
  taken from the free stack; and the population holds, and the stack has lost, exactly
  as many segments as \<open>A\<close> has keys.
\<close>

theorem Simplifier_init_in_range_only:
  assumes "card {k. 0 \<le> k \<and> k < int (length (ts_samples ts)) \<and> k \<in> set samples} \<le> max_segments"
  shows "\<exists>s. Simplifier_init ts samples max_segments = Inr s \<and>
           dom (sim_A s) = {k. 0 \<le> k \<and> k < int (length (ts_samples ts)) \<and> k \<in> set samples} \<and>
           (\<forall>k x. sim_A s k = Some x \<longrightarrow>
              sim_segments s x = \<lparr>seg_left = 0, seg_right = ts_sequence_length ts, seg_node = k,
                 seg_population = 0, seg_prev = None, seg_next = None\<rparr> \<and>
              x \<in> set (sim_P s ! 0) \<and> x \<notin> set (sim_segment_stack s)) \<and>
           inj_on (sim_A s) (dom (sim_A s)) \<and>
           length (sim_P s) = 1 \<and>
           length (sim_P s ! 0) = card (dom (sim_A s)) \<and>
           length (sim_segment_stack s) + card (dom (sim_A s)) = max_segments"
proof -
  define n where "n = length (ts_samples ts)"
  define K where "K = kept samples [0..<n]"
  define s0 where "s0 = \<lparr>sim_ts = ts, sim_n = int n, sim_m = ts_sequence_length ts,
                sim_max_segments = max_segments,
                sim_segment_stack = initial_stack max_segments,
                sim_segments = (\<lambda>j. blank_segment),
                sim_P = [[]], sim_C = [], sim_L = (\<lambda>j. 0), sim_S = [],
                sim_A = Map.empty, sim_pop_index = 0, sim_t = 0, sim_w = 0,
                sim_num_ca_events = 0, sim_num_re_events = 0\<rparr>"
  have lenK: "length K = card {k. 0 \<le> k \<and> k < int n \<and> k \<in> set samples}"
    by (simp add: K_def length_kept)
  have "\<exists>s'. init_samples samples [0..<n] s0 = Inr s' \<and> init_post samples [0..<n] s0 s'"
    using assms
    by (intro init_samples_spec)
       (simp_all add: s0_def distinct_initial_stack length_initial_stack length_kept n_def)
  then obtain s1 where s1: "init_samples samples [0..<n] s0 = Inr s1"
    and post: "init_post samples [0..<n] s0 s1" by blast
  define s where "s = s1\<lparr>sim_S := S_set (S_set (sim_S s1) 0 (sim_n s1)) (sim_m s1) (- 1),
                      sim_t := 0, sim_w := sim_n s1,
                      sim_num_ca_events := 0, sim_num_re_events := 0\<rparr>"
  have res: "Simplifier_init ts samples max_segments = Inr s"
    using s1 by (simp add: Simplifier_init_def Let_def n_def[symmetric] s0_def[symmetric] s_def)
  define new where "new = take (length K) (initial_stack max_segments)"
  have lenK_le: "length K \<le> max_segments" using assms lenK n_def by simp
  have len_new: "length new = length K"
    using lenK_le by (simp add: new_def length_initial_stack)
  have dist_new: "distinct new"
    by (simp add: new_def distinct_initial_stack)
  have A: "sim_A s = Map.empty(map int K [\<mapsto>] new)"
    using post by (simp add: init_post_def s_def s0_def K_def new_def)
  have P: "sim_P s = [new]"
    using post by (simp add: init_post_def s_def s0_def K_def new_def)
  have stack: "sim_segment_stack s = drop (length K) (initial_stack max_segments)"
    using post by (simp add: init_post_def s_def s0_def K_def)
  have segs: "\<And>j. j < length K \<Longrightarrow> sim_segments s (new ! j) =
      \<lparr>seg_left = 0, seg_right = ts_sequence_length ts, seg_node = int (K ! j),
       seg_population = 0, seg_prev = None, seg_next = None\<rparr>"
    using post lenK_le by (simp add: init_post_def s_def s0_def K_def new_def)
  have distK: "distinct (map int K)"
    by (simp add: K_def distinct_map distinct_kept)
  have domA: "dom (sim_A s) = {k. 0 \<le> k \<and> k < int n \<and> k \<in> set samples}"
    using len_new by (simp add: A K_def set_kept)
  have lookup: "\<And>k x. sim_A s k = Some x \<Longrightarrow> \<exists>j < length K. k = int (K ! j) \<and> x = new ! j"
  proof -
    fix k x assume kx: "sim_A s k = Some x"
    then have "k \<in> dom (sim_A s)" by blast
    then have "k \<in> int ` set K" using len_new by (simp add: A)
    then obtain j where j: "j < length K" "k = int (K ! j)"
      by (auto simp: in_set_conv_nth)
    then have "sim_A s k = Some (new ! j)"
      using distK len_new map_upds_nth[of "map int K" new j Map.empty] by (simp add: A)
    with kx j show "\<exists>j < length K. k = int (K ! j) \<and> x = new ! j" by auto
  qed
  have c1: "\<forall>k x. sim_A s k = Some x \<longrightarrow>
              sim_segments s x = \<lparr>seg_left = 0, seg_right = ts_sequence_length ts, seg_node = k,
                 seg_population = 0, seg_prev = None, seg_next = None\<rparr> \<and>
              x \<in> set (sim_P s ! 0) \<and> x \<notin> set (sim_segment_stack s)"
  proof (intro allI impI)
    fix k x assume "sim_A s k = Some x"
    from lookup[OF this] obtain j where j: "j < length K" "k = int (K ! j)" "x = new ! j"
      by blast
    have "x \<in> set new" using j len_new by simp
    moreover have "set new \<inter> set (sim_segment_stack s) = {}"
      unfolding new_def stack using distinct_initial_stack[of max_segments]
      by (metis append_take_drop_id distinct_append)
    ultimately show "sim_segments s x = \<lparr>seg_left = 0, seg_right = ts_sequence_length ts, seg_node = k,
                 seg_population = 0, seg_prev = None, seg_next = None\<rparr> \<and>
              x \<in> set (sim_P s ! 0) \<and> x \<notin> set (sim_segment_stack s)"
      using segs[OF j(1)] j by (auto simp: P)
  qed
  have inj: "inj_on (sim_A s) (dom (sim_A s))"
  proof (rule inj_onI)
    fix a b assume ab: "a \<in> dom (sim_A s)" "b \<in> dom (sim_A s)" "sim_A s a = sim_A s b"
    then obtain x where x: "sim_A s a = Some x" "sim_A s b = Some x" by auto
    from c1 x(1) have "sim_segments s x = \<lparr>seg_left = 0, seg_right = ts_sequence_length ts,
        seg_node = a, seg_population = 0, seg_prev = None, seg_next = None\<rparr>" by blast
    then have a: "seg_node (sim_segments s x) = a" by simp
    from c1 x(2) have "sim_segments s x = \<lparr>seg_left = 0, seg_right = ts_sequence_length ts,
        seg_node = b, seg_population = 0, seg_prev = None, seg_next = None\<rparr>" by blast
    then have "seg_node (sim_segments s x) = b" by simp
    with a show "a = b" by simp
  qed
  have cardA: "card (dom (sim_A s)) = length K"
    using domA lenK by simp
  show ?thesis
    using res domA c1 inj cardA len_new lenK_le
    by (auto simp: P stack length_initial_stack n_def)
qed

lemma example_ts_samples: "ts_samples example_ts = [0, 1, 2]"
  by (simp add: ts_samples_def example_ts_def is_sample_def upt_rec)

theorem Simplifier_init_in_range_only_witness:
  "card {k. 0 \<le> k \<and> k < int (length (ts_samples example_ts)) \<and> k \<in> set [0, 2, 7, - 1]} \<le> 2 \<and>
   (\<exists>s. Simplifier_init example_ts [0, 2, 7, - 1] 2 = Inr s \<and> dom (sim_A s) = {0, 2} \<and>
      length (sim_P s ! 0) = 2 \<and> sim_segment_stack s = [])"
proof -
  have set_eq: "{k. 0 \<le> k \<and> k < int (length (ts_samples example_ts)) \<and> k \<in> set [0, 2, 7, - 1]}
      = {0, 2}"
    by (auto simp: example_ts_samples)
  have h: "card {k. 0 \<le> k \<and> k < int (length (ts_samples example_ts)) \<and> k \<in> set [0, 2, 7, - 1]} \<le> 2"
    unfolding set_eq by simp
  from Simplifier_init_in_range_only[OF h] h show ?thesis
    unfolding set_eq by auto
qed

section \<open>remove_ancestry\<close>

lemma ra_overlap_left_frame:
  assumes "ra_overlap_left e xi v s = Inr (v1, s1)"
  shows "v_H v1 = v_H v" "v_output_head v1 = v_output_head v" "v_x v1 = v_x v"
    "v_z v1 = v_z v" "v_overhang_right v1 = v_overhang_right v"
    "sim_A s1 = sim_A s" "sim_P s1 = sim_P s"
    "\<exists>w. v_w v1 = Some w \<and> seg_prev (seg s1 w) = v_w v"
  using assms
  by (auto simp: ra_overlap_left_def Let_def alloc_segment_def set_right_def set_prev_def
      seg_def split: if_splits list.splits)

lemma ra_push_head_result:
  assumes "ra_push_head v s = Inr v2"
  shows "\<not> v_output_head v2" "v_x v2 = v_x v" "v_y v2 = v_y v" "v_z v2 = v_z v"
    "v_w v2 = v_w v" "v_overhang_right v2 = v_overhang_right v"
    "v_output_head v \<Longrightarrow> \<exists>w. v_w v = Some w \<and> v_H v2 = v_H v @ [(seg_left (seg s w), w)]"
    "\<not> v_output_head v \<Longrightarrow> v_H v2 = v_H v"
  using assms
  by (auto simp: ra_push_head_def heappush_def split: if_splits option.splits)

lemma ra_overhang_right_frame:
  assumes "ra_overhang_right outr segr xi v s = Inr (v3, s3)"
  shows "v_H v3 = v_H v" "v_output_head v3 = v_output_head v" "v_x v3 = v_x v"
    "v_y v3 = v_y v" "v_w v3 = v_w v" "v_overhang_right v3 = v_overhang_right v"
    "sim_A s3 = sim_A s" "sim_P s3 = sim_P s" "\<exists>z. v_z v3 = Some z"
  using assms
  by (auto simp: ra_overhang_right_def Let_def alloc_segment_def set_next_def set_prev_def
      split: if_splits list.splits option.splits)

lemma ra_body_pushed_once:
  assumes "ra_body e xi v s = Inr (brk, v', s')" and "pushed_once H0 v"
  shows "pushed_once H0 v'"
proof (cases "es_left e \<le> seg_right (seg s xi) \<and> es_right e \<ge> seg_left (seg s xi)")
  case False
  with assms show ?thesis by (auto simp: ra_body_def pushed_once_def)
next
  case True
  from assms(1) True obtain v1 s1 v2 where
    ol: "ra_overlap_left e xi v s = Inr (v1, s1)" and ph: "ra_push_head v1 s1 = Inr v2"
    by (auto simp: ra_body_def Let_def split: sum.splits prod.splits)
  have v2: "pushed_once H0 v2"
    using ra_push_head_result[OF ph] ra_overlap_left_frame(1,2)[OF ol] assms(2)
    by (auto simp: pushed_once_def)
  from assms(1) True ol ph have
    "(\<exists>v3. ra_overhang_right (min (es_right e) (seg_right (seg s xi))) (seg_right (seg s xi)) xi
          (v2\<lparr>v_overhang_right := True\<rparr>) s1 = Inr (v3, s') \<and> v' = v3)
     \<or> v' = v2\<lparr>v_overhang_right := False\<rparr>"
    by (auto simp: ra_body_def Let_def split: sum.splits prod.splits if_splits)
  then show ?thesis
  proof
    assume "\<exists>v3. ra_overhang_right (min (es_right e) (seg_right (seg s xi))) (seg_right (seg s xi)) xi
          (v2\<lparr>v_overhang_right := True\<rparr>) s1 = Inr (v3, s') \<and> v' = v3"
    then obtain v3 where "ra_overhang_right (min (es_right e) (seg_right (seg s xi)))
        (seg_right (seg s xi)) xi (v2\<lparr>v_overhang_right := True\<rparr>) s1 = Inr (v3, s')" "v' = v3"
      by blast
    with ra_overhang_right_frame(1,2)[OF this(1)] v2 show ?thesis
      by (simp add: pushed_once_def)
  next
    assume "v' = v2\<lparr>v_overhang_right := False\<rparr>"
    with v2 show ?thesis by (simp add: pushed_once_def)
  qed
qed

lemma ra_body_A:
  assumes "ra_body e xi v s = Inr (brk, v', s')"
  shows "sim_A s' = sim_A s" "sim_P s' = sim_P s"
  using assms ra_overlap_left_frame(6,7) ra_overhang_right_frame(7,8)
  by (auto simp: ra_body_def Let_def split: sum.splits prod.splits if_splits)

lemma ra_while_pushed_once:
  assumes "ra_while fuel e v s = Some (Inr (v', s'))" and "pushed_once H0 v"
  shows "pushed_once H0 v' \<and> sim_A s' = sim_A s \<and> sim_P s' = sim_P s"
  using assms
proof (induction fuel arbitrary: v s)
  case 0
  then show ?case by simp
next
  case (Suc k)
  show ?case
  proof (cases "v_x v")
    case None
    with Suc.prems show ?thesis by simp
  next
    case (Some xi)
    show ?thesis
    proof (cases "es_right e > seg_left (seg s xi)")
      case False
      with Some Suc.prems show ?thesis by simp
    next
      case True
      with Some Suc.prems(1) obtain brk v1 s1 where
        b: "ra_body e xi v s = Inr (brk, v1, s1)"
        by (auto split: sum.splits)
      note p1 = ra_body_pushed_once[OF b Suc.prems(2)] and a1 = ra_body_A[OF b]
      show ?thesis
      proof (cases brk)
        case True
        with \<open>es_right e > seg_left (seg s xi)\<close> Some Suc.prems(1) b p1 a1 show ?thesis
          by simp
      next
        case False
        with \<open>es_right e > seg_left (seg s xi)\<close> Some Suc.prems(1) b
        have rec: "ra_while k e (v1\<lparr>v_x := seg_next (seg s1 xi)\<rparr>) s1 = Some (Inr (v', s'))"
          by simp
        have "pushed_once H0 (v1\<lparr>v_x := seg_next (seg s1 xi)\<rparr>)"
          using p1 by (simp add: pushed_once_def)
        from Suc.IH[OF rec this] a1 show ?thesis by simp
      qed
    qed
  qed
qed

lemma ra_wrapup_A:
  shows "v_output_head v \<Longrightarrow> ra_wrapup c v s = s"
    and "\<not> v_output_head v \<Longrightarrow> v_y v = None \<Longrightarrow> wrapup_z v = None \<Longrightarrow>
           sim_A (ra_wrapup c v s) = (sim_A s)(c := None)"
    and "\<not> v_output_head v \<Longrightarrow> v_y v = None \<Longrightarrow> wrapup_z v = Some zi \<Longrightarrow>
           sim_A (ra_wrapup c v s) = (sim_A s)(c \<mapsto> zi)"
    and "v_y v = Some y \<Longrightarrow> sim_A (ra_wrapup c v s) = sim_A s"
    and "k \<noteq> c \<Longrightarrow> sim_A (ra_wrapup c v s) k = sim_A s k"
  by (auto simp: ra_wrapup_def wrapup_z_def Let_def set_next_def set_prev_def
      split: option.splits)

lemma ra_child_absent:
  "c \<notin> dom (sim_A s) \<Longrightarrow> ra_child fuel e c (H, s) = Some (Inr (H, s))"
  by (simp add: ra_child_def)

lemma ra_child_present:
  assumes "c \<in> dom (sim_A s)" and "ra_child fuel e c (H, s) = Some (Inr (H', s'))"
  shows "\<exists>x v s1. get_ancestor c s = Inr x \<and>
           ra_while fuel e (ra_start x H) s = Some (Inr (v, s1)) \<and>
           H' = v_H v \<and> s' = ra_wrapup c v s1"
  using assms
  by (auto simp: ra_child_def split: sum.splits option.splits)

lemma ra_child_heap:
  assumes "ra_child fuel e c (H, s) = Some (Inr (H', s'))"
  shows "(H' = H \<or> (\<exists>entry. H' = H @ [entry])) \<and> (\<forall>k. k \<noteq> c \<longrightarrow> sim_A s' k = sim_A s k)"
proof (cases "c \<in> dom (sim_A s)")
  case False
  with assms show ?thesis by (simp add: ra_child_def)
next
  case True
  from ra_child_present[OF True assms] obtain x v s1 where
    w: "ra_while fuel e (ra_start x H) s = Some (Inr (v, s1))"
    and r: "H' = v_H v" "s' = ra_wrapup c v s1"
    by blast
  have "pushed_once H (ra_start x H)"
    by (simp add: pushed_once_def ra_start_def)
  from ra_while_pushed_once[OF w this] r show ?thesis
    by (auto simp: pushed_once_def ra_wrapup_A(5))
qed

lemma ra_children_length:
  assumes "ra_children fuel e cs (H, s) = Some (Inr (H', s'))"
  shows "length H' \<le> length H + length cs"
  using assms
proof (induction cs arbitrary: H s)
  case Nil
  then show ?case by simp
next
  case (Cons c cs)
  from Cons.prems obtain H1 s1 where
    c: "ra_child fuel e c (H, s) = Some (Inr (H1, s1))"
    and rest: "ra_children fuel e cs (H1, s1) = Some (Inr (H', s'))"
    by (auto split: option.splits sum.splits)
  from ra_child_heap[OF c] have "length H1 \<le> length H + 1" by auto
  with Cons.IH[OF rest] show ?case by simp
qed

lemma ra_children_length_distinct:
  assumes "ra_children fuel e cs (H, s) = Some (Inr (H', s'))" and "distinct cs"
  shows "length H' \<le> length H + length (filter (\<lambda>c. c \<in> dom (sim_A s)) cs)"
  using assms
proof (induction cs arbitrary: H s)
  case Nil
  then show ?case by simp
next
  case (Cons c cs)
  from Cons.prems obtain H1 s1 where
    c: "ra_child fuel e c (H, s) = Some (Inr (H1, s1))"
    and rest: "ra_children fuel e cs (H1, s1) = Some (Inr (H', s'))"
    by (auto split: option.splits sum.splits)
  have same: "filter (\<lambda>k. k \<in> dom (sim_A s1)) cs = filter (\<lambda>k. k \<in> dom (sim_A s)) cs"
  proof (rule filter_cong[OF refl])
    fix k assume "k \<in> set cs"
    with Cons.prems(2) have "k \<noteq> c" by auto
    with ra_child_heap[OF c] have "sim_A s1 k = sim_A s k" by blast
    then show "(k \<in> dom (sim_A s1)) = (k \<in> dom (sim_A s))" by (simp add: dom_def)
  qed
  have step: "length H1 \<le> length H + (if c \<in> dom (sim_A s) then 1 else 0)"
  proof (cases "c \<in> dom (sim_A s)")
    case True
    with ra_child_heap[OF c] show ?thesis by auto
  next
    case False
    with c ra_child_absent[OF False, of fuel e H] show ?thesis by simp
  qed
  from Cons.IH[OF rest] Cons.prems(2) have
    "length H' \<le> length H1 + length (filter (\<lambda>k. k \<in> dom (sim_A s)) cs)"
    by (simp add: same)
  with step show ?case by (auto split: if_splits)
qed

lemma ra_parent_length:
  assumes "ra_parent e s = Inr H"
  shows "length H = (if es_parent e \<in> dom (sim_A s) then 1 else 0)"
  using assms
  by (auto simp: ra_parent_def heappush_def split: if_splits sum.splits option.splits)

lemma remove_ancestry_length:
  assumes "remove_ancestry fuel e s = Some (Inr (H, s'))"
  shows "length H \<le> (if es_parent e \<in> dom (sim_A s) then 1 else 0) + length (es_children e)"
    and "distinct (es_children e) \<Longrightarrow>
      length H \<le> (if es_parent e \<in> dom (sim_A s) then 1 else 0) +
        length (filter (\<lambda>c. c \<in> dom (sim_A s)) (es_children e))"
proof -
  from assms obtain H0 where p: "ra_parent e s = Inr H0"
    and c: "ra_children fuel e (es_children e) (H0, s) = Some (Inr (H, s'))"
    by (auto simp: remove_ancestry_def split: sum.splits)
  from ra_children_length[OF c] ra_parent_length[OF p]
  show "length H \<le> (if es_parent e \<in> dom (sim_A s) then 1 else 0) + length (es_children e)"
    by simp
  assume "distinct (es_children e)"
  from ra_children_length_distinct[OF c this] ra_parent_length[OF p]
  show "length H \<le> (if es_parent e \<in> dom (sim_A s) then 1 else 0) +
        length (filter (\<lambda>c. c \<in> dom (sim_A s)) (es_children e))"
    by simp
qed

lemma chain_ends_cut:
  "chain_ends n s x \<Longrightarrow> next_cut s s' \<Longrightarrow> chain_ends n s' x"
proof (induction n arbitrary: x)
  case 0
  then show ?case by simp
next
  case (Suc n)
  show ?case
  proof (cases x)
    case None
    then show ?thesis by simp
  next
    case (Some i)
    with Suc.prems have a: "chain_ends n s (seg_next (seg s i))" by simp
    from Suc.prems(2) have "seg_next (seg s' i) = seg_next (seg s i) \<or> seg_next (seg s' i) = None"
      by (simp add: next_cut_def)
    then show ?thesis
    proof
      assume "seg_next (seg s' i) = seg_next (seg s i)"
      with Suc.IH[OF a Suc.prems(2)] Some show ?thesis by simp
    next
      assume "seg_next (seg s' i) = None"
      with Some show ?thesis by (cases n) simp_all
    qed
  qed
qed

lemma ra_overlap_left_cut:
  assumes "ra_overlap_left e xi v s = Inr (v1, s1)"
  shows "next_cut s s1"
  using assms
  by (auto simp: ra_overlap_left_def Let_def alloc_segment_def set_right_def set_prev_def
      seg_def next_cut_def split: if_splits list.splits)

lemma ra_body_cut:
  assumes "ra_body e xi v s = Inr (False, v', s')"
  shows "next_cut s s'"
proof (cases "es_left e \<le> seg_right (seg s xi) \<and> es_right e \<ge> seg_left (seg s xi)")
  case False
  with assms show ?thesis by (auto simp: ra_body_def next_cut_def)
next
  case True
  with assms obtain v1 where "ra_overlap_left e xi v s = Inr (v1, s')"
    by (auto simp: ra_body_def Let_def split: sum.splits prod.splits if_splits)
  then show ?thesis by (rule ra_overlap_left_cut)
qed

lemma ra_while_ends:
  assumes "chain_ends n s (v_x v)"
  shows "ra_while (Suc n) e v s \<noteq> None"
  using assms
proof (induction n arbitrary: v s)
  case 0
  then show ?case by simp
next
  case (Suc n)
  show ?case
  proof (cases "v_x v")
    case None
    then show ?thesis by simp
  next
    case (Some xi)
    show ?thesis
    proof (cases "es_right e > seg_left (seg s xi)")
      case False
      with Some show ?thesis by simp
    next
      case True
      show ?thesis
      proof (cases "ra_body e xi v s")
        case (Inl err)
        with Some True show ?thesis by simp
      next
        case (Inr res)
        then obtain brk v1 s1 where b: "ra_body e xi v s = Inr (brk, v1, s1)"
          by (cases res) auto
        show ?thesis
        proof (cases brk)
          case True
          with Some \<open>es_right e > seg_left (seg s xi)\<close> b show ?thesis by simp
        next
          case False
          with b have "ra_body e xi v s = Inr (False, v1, s1)" by simp
          then have cut: "next_cut s s1" by (rule ra_body_cut)
          from Suc.prems Some have "chain_ends n s (seg_next (seg s xi))" by simp
          from chain_ends_cut[OF this cut] have "chain_ends n s1 (seg_next (seg s xi))" .
          moreover from cut have
            "seg_next (seg s1 xi) = seg_next (seg s xi) \<or> seg_next (seg s1 xi) = None"
            by (simp add: next_cut_def)
          ultimately have "chain_ends n s1 (seg_next (seg s1 xi))"
            by (cases n) auto
          then have "chain_ends n s1 (v_x (v1\<lparr>v_x := seg_next (seg s1 xi)\<rparr>))" by simp
          from Suc.IH[OF this] Some \<open>es_right e > seg_left (seg s xi)\<close> b False
          show ?thesis by simp
        qed
      qed
    qed
  qed
qed

lemma ra_child_ends:
  assumes "\<forall>x. get_ancestor c s = Inr x \<longrightarrow> chain_ends n s x"
  shows "ra_child (Suc n) e c (H, s) \<noteq> None"
proof (cases "c \<in> dom (sim_A s)")
  case False
  then show ?thesis by (simp add: ra_child_def)
next
  case True
  show ?thesis
  proof (cases "get_ancestor c s")
    case (Inl err)
    with True show ?thesis by (simp add: ra_child_def)
  next
    case (Inr x)
    with assms have "chain_ends n s (v_x (ra_start x H))"
      by (simp add: ra_start_def)
    from ra_while_ends[OF this, of e] Inr True show ?thesis
      by (auto simp: ra_child_def split: option.splits sum.splits)
  qed
qed

lemma ra_while_A:
  assumes "ra_while fuel e v s = Some (Inr (v', s'))"
  shows "sim_A s' = sim_A s"
proof -
  show ?thesis using assms
  proof (induction fuel arbitrary: v s)
    case 0
    then show ?case by simp
  next
    case (Suc k)
    show ?case
    proof (cases "v_x v")
      case None
      with Suc.prems show ?thesis by simp
    next
      case (Some xi)
      show ?thesis
      proof (cases "es_right e > seg_left (seg s xi)")
        case False
        with Some Suc.prems show ?thesis by simp
      next
        case True
        with Some Suc.prems(1) obtain brk v1 s1 where
          b: "ra_body e xi v s = Inr (brk, v1, s1)"
          by (auto split: sum.splits)
        show ?thesis
        proof (cases brk)
          case True
          with \<open>es_right e > seg_left (seg s xi)\<close> Some Suc.prems(1) b ra_body_A(1)[OF b]
          show ?thesis by simp
        next
          case False
          with \<open>es_right e > seg_left (seg s xi)\<close> Some Suc.prems(1) b
          have "ra_while k e (v1\<lparr>v_x := seg_next (seg s1 xi)\<rparr>) s1 = Some (Inr (v', s'))"
            by simp
          from Suc.IH[OF this] ra_body_A(1)[OF b] show ?thesis by simp
        qed
      qed
    qed
  qed
qed

text \<open>
  Claim C3 on a child whose chain has two segments. Removing \<open>[4, 6)\<close> from the child 0
  of the example, whose chain is the one segment \<open>[0, 10)\<close>, returns the one entry
  \<open>[4, 6)\<close> and leaves the child the chain \<open>[0, 4)\<close>, \<open>[6, 10)\<close>. Over that chain the edge
  \<open>[2, 8)\<close> removes \<open>[2, 4)\<close> and \<open>[6, 8)\<close>: the heap returned holds the one entry
  \<open>[2, 4)\<close>, whose chain ends with it, and the child keeps \<open>[0, 2)\<close>, \<open>[8, 10)\<close>, so the
  removed \<open>[6, 8)\<close> is on neither chain. Over the same chain the edge \<open>[0, 4)\<close> removes
  the head \<open>[0, 4)\<close> alone: the chain of the one entry returned runs on into \<open>[6, 10)\<close>,
  the surviving residue that the child's entry of the Ancestor Index Map is repointed to.
\<close>

theorem remove_ancestry_removed_run_not_chained:
  "ancestry_view 0 (remove_ancestry 3 gap_edge example_sim)
     = Some ([(4, [(4, 6)])], [(0, 4), (6, 10)]) \<and>
   ancestry_view 0 (remove_ancestry 3 span_edge gapped_sim)
     = Some ([(2, [(2, 4)])], [(0, 2), (8, 10)]) \<and>
   ancestry_view 0 (remove_ancestry 3 head_edge gapped_sim)
     = Some ([(0, [(0, 4), (6, 10)])], [(6, 10)])"
  by code_simp

lemma example_sim_init: "Simplifier_init example_ts [0, 1, 2] 8 = Inr example_sim"
  unfolding example_sim_def
  by (simp add: Simplifier_init_def Let_def ts_samples_def example_ts_def is_sample_def upt_rec
      initial_stack_def alloc_segment_def pop_add_def L_set_value_def)

section \<open>merge_labeled_ancestors\<close>

lemma S_get_map_of: "S_get S k = Inr c \<longleftrightarrow> map_of S k = Some c"
  by (simp add: S_get_def split: option.splits)

lemma S_get_key: "S_get S k = Inr c \<Longrightarrow> k \<in> set (map fst S)"
  by (auto simp: S_get_def split: option.splits dest: map_of_SomeD)
     (metis fst_conv image_eqI map_of_SomeD)

lemma map_of_S_set: "map_of (S_set S k v) = (map_of S)(k \<mapsto> v)"
  by (simp add: S_set_def update_conv')

lemma key_has_count: "k \<in> set (map fst S) \<Longrightarrow> \<exists>c. S_get S k = Inr c"
  by (cases "map_of S k") (auto simp: S_get_def map_of_eq_None_iff)

lemma succ_key_exists:
  assumes "j \<in> set (map fst S)" and "k < j"
  shows "\<exists>i. succ_key S k = Inr i"
proof -
  from assms have "j \<in> set (filter (\<lambda>j. k < j) (map fst S))" by simp
  then have "filter (\<lambda>j. k < j) (map fst S) \<noteq> []" by (metis empty_iff empty_set)
  then show ?thesis by (auto simp: succ_key_def split: list.splits)
qed

lemma S_walk_spec:
  assumes "S_walk nX r_max S r0 = Inr (r, S')"
  shows "r0 \<le> r \<and> (r_max \<le> r \<or> map_of S r = Some (int nX)) \<and>
         (\<forall>k \<in> set (map fst S). r0 \<le> k \<and> k < r \<longrightarrow>
            k < r_max \<and> map_of S k \<noteq> Some (int nX) \<and>
            (\<exists>c. map_of S k = Some c \<and> map_of S' k = Some (c - (int nX - 1)))) \<and>
         (\<forall>k. \<not> (r0 \<le> k \<and> k < r) \<longrightarrow> map_of S' k = map_of S k) \<and>
         map fst S' = map fst S \<and> (r = r0 \<or> r \<in> set (map fst S))"
  using assms
proof (induction nX r_max S r0 arbitrary: r S' rule: S_walk.induct)
  case (1 nX r_max S r0)
  show ?case
  proof (cases "r0 < r_max")
    case False
    with "1.prems" have "r = r0" "S' = S" by (simp_all add: S_walk.simps[of nX r_max S r0])
    with False show ?thesis by auto
  next
    case True
    with "1.prems" obtain c where c: "S_get S r0 = Inr c"
      by (auto simp: S_walk.simps[of nX r_max S r0] split: sum.splits)
    show ?thesis
    proof (cases "c = int nX")
      case True
      with \<open>r0 < r_max\<close> c "1.prems" have "r = r0" "S' = S"
        by (simp_all add: S_walk.simps[of nX r_max S r0])
      with True c show ?thesis by (auto simp: S_get_map_of)
    next
      case False
      define S1 where "S1 = S_set S r0 (c - (int nX - 1))"
      from False \<open>r0 < r_max\<close> c "1.prems" obtain r1 where
        sk: "succ_key S1 r0 = Inr r1" and rec: "S_walk nX r_max S1 r1 = Inr (r, S')"
        by (auto simp: S_walk.simps[of nX r_max S r0] S1_def split: sum.splits)
      have keys: "map fst S1 = map fst S" unfolding S1_def using c by (rule S_set_keys)
      have m1: "map_of S1 = (map_of S)(r0 \<mapsto> c - (int nX - 1))"
        by (simp add: S1_def map_of_S_set)
      note least = succ_key_least[OF sk]
      from "1.IH"[OF \<open>r0 < r_max\<close> c False sk[unfolded S1_def] rec[unfolded S1_def]]
      have ih: "r1 \<le> r" "r_max \<le> r \<or> map_of S1 r = Some (int nX)"
        "\<forall>k \<in> set (map fst S1). r1 \<le> k \<and> k < r \<longrightarrow>
            k < r_max \<and> map_of S1 k \<noteq> Some (int nX) \<and>
            (\<exists>c. map_of S1 k = Some c \<and> map_of S' k = Some (c - (int nX - 1)))"
        "\<forall>k. \<not> (r1 \<le> k \<and> k < r) \<longrightarrow> map_of S' k = map_of S1 k"
        "map fst S' = map fst S1" "r = r1 \<or> r \<in> set (map fst S1)"
        by (simp_all add: S1_def)
      have lt: "r0 < r1" using least(1) .
      have a: "r0 \<le> r" using lt ih(1) by simp
      have b: "r_max \<le> r \<or> map_of S r = Some (int nX)"
        using ih(2) lt ih(1) by (auto simp: m1)
      have cc: "\<forall>k \<in> set (map fst S). r0 \<le> k \<and> k < r \<longrightarrow>
            k < r_max \<and> map_of S k \<noteq> Some (int nX) \<and>
            (\<exists>c. map_of S k = Some c \<and> map_of S' k = Some (c - (int nX - 1)))"
      proof (intro ballI impI)
        fix k assume k: "k \<in> set (map fst S)" "r0 \<le> k \<and> k < r"
        show "k < r_max \<and> map_of S k \<noteq> Some (int nX) \<and>
            (\<exists>c. map_of S k = Some c \<and> map_of S' k = Some (c - (int nX - 1)))"
        proof (cases "k = r0")
          case True
          have "map_of S' r0 = map_of S1 r0" using ih(4) lt by auto
          with True c False \<open>r0 < r_max\<close> show ?thesis
            by (auto simp: m1 S_get_map_of)
        next
          case False
          with k have "r0 < k" by simp
          with least(3)[of k] k(1) keys have "r1 \<le> k" by simp
          moreover have "k \<in> set (map fst S1)" using k(1) keys by simp
          ultimately have "k < r_max \<and> map_of S1 k \<noteq> Some (int nX) \<and>
            (\<exists>c. map_of S1 k = Some c \<and> map_of S' k = Some (c - (int nX - 1)))"
            using ih(3) k(2) by blast
          with False show ?thesis by (simp add: m1)
        qed
      qed
      have d: "\<forall>k. \<not> (r0 \<le> k \<and> k < r) \<longrightarrow> map_of S' k = map_of S k"
      proof (intro allI impI)
        fix k assume k: "\<not> (r0 \<le> k \<and> k < r)"
        with lt ih(1) have "\<not> (r1 \<le> k \<and> k < r)" "k \<noteq> r0" by auto
        with ih(4) show "map_of S' k = map_of S k" by (simp add: m1)
      qed
      have e: "r = r0 \<or> r \<in> set (map fst S)"
        using ih(6) least(2) keys by auto
      from a b cc d e ih(5) keys show ?thesis by simp
    qed
  qed
qed

lemma S_walk_total:
  assumes "r0 \<in> set (map fst S)" and "r_max \<in> set (map fst S)" and "r0 \<le> r_max"
  shows "\<exists>res. S_walk nX r_max S r0 = Inr res"
  using assms
proof (induction nX r_max S r0 rule: S_walk.induct)
  case (1 nX r_max S r0)
  show ?case
  proof (cases "r0 < r_max")
    case False
    then show ?thesis by (simp add: S_walk.simps[of nX r_max S r0])
  next
    case True
    from key_has_count[OF "1.prems"(1)] obtain c where c: "S_get S r0 = Inr c" by blast
    show ?thesis
    proof (cases "c = int nX")
      case True
      with \<open>r0 < r_max\<close> c show ?thesis by (simp add: S_walk.simps[of nX r_max S r0])
    next
      case False
      define S1 where "S1 = S_set S r0 (c - (int nX - 1))"
      have keys: "map fst S1 = map fst S" unfolding S1_def using c by (rule S_set_keys)
      from succ_key_exists[of r_max S1 r0] "1.prems"(2) True keys
      obtain r1 where sk: "succ_key S1 r0 = Inr r1" by auto
      note least = succ_key_least[OF sk]
      have "r1 \<le> r_max" using least(3)[of r_max] "1.prems"(2) True keys by simp
      moreover have "r1 \<in> set (map fst S1)" using least(2) .
      moreover have "r_max \<in> set (map fst S1)" using "1.prems"(2) keys by simp
      ultimately have "\<exists>res. S_walk nX r_max S1 r1 = Inr res"
        using "1.IH"[OF True c False sk[unfolded S1_def]] by (simp add: S1_def)
      with False True c sk show ?thesis
        by (simp add: S_walk.simps[of nX r_max S r0] S1_def)
    qed
  qed
qed

lemma succ_key_keys: "map fst S' = map fst S \<Longrightarrow> succ_key S' k = succ_key S k"
  by (simp add: succ_key_def)

lemma mla_bound_collapse:
  assumes "mla_bound l r_max nX u pop_id s = Inr (r, alpha, s')"
    and "map_of (sim_S s) l = Some (int nX)"
  shows "succ_key (sim_S s) l = Inr r" "alpha = None" "sim_S s' = S_set (sim_S s) l 0"
    "sim_segment_stack s' = sim_segment_stack s" "sim_segments s' = sim_segments s"
proof -
  from assms(2) have g: "S_get (sim_S s) l = Inr (int nX)" by (simp add: S_get_map_of)
  have keys: "map fst (S_set (sim_S s) l 0) = map fst (sim_S s)"
    using g by (rule S_set_keys)
  from assms(1) g have sk: "succ_key (S_set (sim_S s) l 0) l = Inr r"
    and r: "alpha = None" "s' = s\<lparr>sim_S := S_set (sim_S s) l 0\<rparr>"
    by (auto simp: mla_bound_def split: sum.splits)
  from sk succ_key_keys[OF keys] show "succ_key (sim_S s) l = Inr r" by simp
  from r show "alpha = None" "sim_S s' = S_set (sim_S s) l 0"
    "sim_segment_stack s' = sim_segment_stack s" "sim_segments s' = sim_segments s"
    by simp_all
qed

lemma mla_bound_walk:
  assumes "mla_bound l r_max nX u pop_id s = Inr (r, alpha, s')"
    and "map_of (sim_S s) l \<noteq> Some (int nX)"
  shows "\<exists>a. alpha = Some a \<and> sim_segment_stack s = a # sim_segment_stack s' \<and>
           seg s' a = \<lparr>seg_left = l, seg_right = r, seg_node = u, seg_population = pop_id,
             seg_prev = None, seg_next = None\<rparr>"
    and "S_walk nX r_max (sim_S s) l = Inr (r, sim_S s')"
proof -
  from assms obtain c where g: "S_get (sim_S s) l = Inr c" and c: "c \<noteq> int nX"
    by (auto simp: mla_bound_def S_get_map_of split: sum.splits)
  from assms(1) g c obtain S1 a s1 where w: "S_walk nX r_max (sim_S s) l = Inr (r, S1)"
    and al: "alloc_segment l r u pop_id None None (s\<lparr>sim_S := S1\<rparr>) = Inr (a, s1)"
    and res: "alpha = Some a" "s' = s1"
    by (auto simp: mla_bound_def split: sum.splits)
  from al res show "\<exists>a. alpha = Some a \<and> sim_segment_stack s = a # sim_segment_stack s' \<and>
           seg s' a = \<lparr>seg_left = l, seg_right = r, seg_node = u, seg_population = pop_id,
             seg_prev = None, seg_next = None\<rparr>"
    by (auto simp: alloc_segment_def seg_def split: list.splits)
  from al res have "sim_S s' = S1"
    by (auto simp: alloc_segment_def split: list.splits)
  with w show "S_walk nX r_max (sim_S s) l = Inr (r, sim_S s')" by simp
qed

lemma mla_bound_total:
  assumes "l \<in> set (map fst (sim_S s))" and "r_max \<in> set (map fst (sim_S s))"
    and "l < r_max" and "sim_segment_stack s \<noteq> []"
  shows "\<exists>res. mla_bound l r_max nX u pop_id s = Inr res"
proof -
  from key_has_count[OF assms(1)] obtain c where g: "S_get (sim_S s) l = Inr c" by blast
  show ?thesis
  proof (cases "c = int nX")
    case True
    have keys: "map fst (S_set (sim_S s) l 0) = map fst (sim_S s)"
      using g by (rule S_set_keys)
    from succ_key_exists[OF assms(2,3)] succ_key_keys[OF keys]
    obtain r where "succ_key (S_set (sim_S s) l 0) l = Inr r" by auto
    with True g show ?thesis by (simp add: mla_bound_def)
  next
    case False
    from S_walk_total[OF assms(1,2), of nX] assms(3) obtain r S1 where
      "S_walk nX r_max (sim_S s) l = Inr (r, S1)" by auto
    moreover from assms(4) obtain a rest where "sim_segment_stack s = a # rest"
      by (cases "sim_segment_stack s") auto
    ultimately show ?thesis using False g
      by (simp add: mla_bound_def alloc_segment_def)
  qed
qed

lemma mla_children_frame:
  "mla_children r X ch H s = (ch', H', s') \<Longrightarrow>
     sim_C s' = sim_C s \<and> sim_t s' = sim_t s \<and> sim_w s' = sim_w s \<and>
     length ch' = length ch + length X"
proof (induction X arbitrary: ch H s)
  case Nil
  then show ?case by simp
next
  case (Cons x X)
  show ?case
  proof (cases "seg_right (seg s x) = r")
    case True
    with Cons.prems Cons.IH[of "ch @ [seg_node (seg s x)]" _ "free_segment x s"]
    show ?thesis
      by (auto simp: Let_def free_segment_def L_set_value_def)
  next
    case False
    show ?thesis
    proof (cases "seg_right (seg s x) > r")
      case True
      with False Cons.prems Cons.IH[of "ch @ [seg_node (seg s x)]" _ "set_left x r s"]
      show ?thesis by (auto simp: Let_def set_left_def)
    next
      case g: False
      with False Cons.prems Cons.IH[of "ch @ [seg_node (seg s x)]" H s]
      show ?thesis by auto
    qed
  qed
qed

lemma mla_bound_frame:
  "mla_bound l r_max nX u pop_id s = Inr (r, alpha, s') \<Longrightarrow>
     sim_C s' = sim_C s \<and> sim_t s' = sim_t s \<and> sim_w s' = sim_w s"
  by (auto simp: mla_bound_def alloc_segment_def split: sum.splits if_splits list.splits)

lemma mla_coalesce_spec:
  assumes "mla_coalesce l r_max X pop_id coalescence H s = Inr (alpha, c', H', s')"
  shows "\<exists>Sa Sb r s2 children.
           S_ensure l (sim_S s) = Inr Sa \<and> S_ensure r_max Sa = Inr Sb \<and>
           mla_bound l r_max (length X) (if coalescence then sim_w s - 1 else sim_w s) pop_id
             (s\<lparr>sim_w := (if coalescence then sim_w s else sim_w s + 1), sim_S := Sb\<rparr>)
             = Inr (r, alpha, s2) \<and>
           length children = length X \<and>
           sim_C s' = sim_C s @
             [(l, r, if coalescence then sim_w s - 1 else sim_w s, children, sim_t s)] \<and>
           sim_w s' = (if coalescence then sim_w s else sim_w s + 1) \<and> c'"
proof -
  define u where "u = (if coalescence then sim_w s - 1 else sim_w s)"
  define s1 where "s1 = (if coalescence then s else s\<lparr>sim_w := sim_w s + 1\<rparr>)"
  have nn: "next_node_id coalescence s = (True, u, s1)"
    by (simp add: next_node_id_def u_def s1_def Let_def)
  from assms nn obtain Sa Sb r s2 children H1 s3 where
    a: "S_ensure l (sim_S s1) = Inr Sa" and b: "S_ensure r_max Sa = Inr Sb"
    and bd: "mla_bound l r_max (length X) u pop_id (s1\<lparr>sim_S := Sb\<rparr>) = Inr (r, alpha, s2)"
    and ch: "mla_children r X [] H s2 = (children, H1, s3)"
    and res: "c' = True" "s' = s3\<lparr>sim_C := sim_C s3 @ [(l, r, u, children, sim_t s3)]\<rparr>"
    by (auto simp: mla_coalesce_def split: sum.splits prod.splits)
  have s1S: "sim_S s1 = sim_S s" by (simp add: s1_def)
  have s1eq: "s1\<lparr>sim_S := Sb\<rparr> =
      s\<lparr>sim_w := (if coalescence then sim_w s else sim_w s + 1), sim_S := Sb\<rparr>"
    by (simp add: s1_def)
  from mla_children_frame[OF ch] mla_bound_frame[OF bd]
  have fr: "sim_C s3 = sim_C s" "sim_t s3 = sim_t s" "length children = length X"
    "sim_w s2 = sim_w s1"
    by (simp_all add: s1_def)
  from mla_children_frame[OF ch] have w3: "sim_w s3 = sim_w s2" by simp
  have w1: "sim_w s1 = (if coalescence then sim_w s else sim_w s + 1)" by (simp add: s1_def)
  from a b bd res fr w3 w1 show ?thesis
    unfolding s1S s1eq u_def by auto
qed

text \<open>
  Claim C2, as amended. For a batch of \<open>nX\<close> segments popped at the least left
  coordinate \<open>l\<close>, once \<open>S\<close> has entries at \<open>l\<close> and \<open>r_max\<close>: if the count \<open>S[l]\<close> is
  \<open>nX\<close>, the count is set to 0, \<open>r\<close> is the successor key of \<open>l\<close> and no segment is
  allocated (\<open>alpha\<close> stays \<open>None\<close>); otherwise \<open>r\<close> is found by walking successor keys
  from \<open>l\<close>, decrementing each count by \<open>nX - 1\<close>, and stops at the first key that is
  not below \<open>r_max\<close> or whose count is \<open>nX\<close>, and only then a new segment \<open>alpha\<close>
  spanning \<open>[l, r)\<close>, attributed to the node \<open>u\<close> and the population, is allocated. In
  \<open>mla_coalesce\<close> the node \<open>u\<close> is the one \<open>next_node_id\<close> gives, and the record
  \<open>(l, r, u, children, t)\<close> is appended to \<open>C\<close>. With \<open>l\<close> and \<open>r_max\<close> keys of \<open>S\<close>,
  \<open>l < r_max\<close> and a free slot, the bound is found without an error.
\<close>

theorem merge_coalescence_right_bound:
  "(mla_bound l r_max nX u pop_id s = Inr (r, alpha, s') \<and>
      map_of (sim_S s) l = Some (int nX) \<longrightarrow>
      succ_key (sim_S s) l = Inr r \<and> alpha = None \<and> sim_S s' = S_set (sim_S s) l 0 \<and>
      sim_segment_stack s' = sim_segment_stack s \<and> sim_segments s' = sim_segments s) \<and>
   (mla_bound l r_max nX u pop_id s = Inr (r, alpha, s') \<and>
      map_of (sim_S s) l \<noteq> Some (int nX) \<longrightarrow>
      (\<exists>a. alpha = Some a \<and> sim_segment_stack s = a # sim_segment_stack s' \<and>
         seg s' a = \<lparr>seg_left = l, seg_right = r, seg_node = u, seg_population = pop_id,
           seg_prev = None, seg_next = None\<rparr>) \<and>
      l \<le> r \<and> (r = l \<or> r \<in> set (map fst (sim_S s))) \<and>
      (r_max \<le> r \<or> map_of (sim_S s) r = Some (int nX)) \<and>
      (\<forall>k \<in> set (map fst (sim_S s)). l \<le> k \<and> k < r \<longrightarrow>
         k < r_max \<and> map_of (sim_S s) k \<noteq> Some (int nX) \<and>
         (\<exists>c. map_of (sim_S s) k = Some c \<and> map_of (sim_S s') k = Some (c - (int nX - 1)))) \<and>
      (\<forall>k. \<not> (l \<le> k \<and> k < r) \<longrightarrow> map_of (sim_S s') k = map_of (sim_S s) k)) \<and>
   (mla_coalesce l r_max X pop_id coalescence H s = Inr (alpha, c', H', s') \<longrightarrow>
      (\<exists>Sa Sb r s2 children.
         S_ensure l (sim_S s) = Inr Sa \<and> S_ensure r_max Sa = Inr Sb \<and>
         mla_bound l r_max (length X) (if coalescence then sim_w s - 1 else sim_w s) pop_id
           (s\<lparr>sim_w := (if coalescence then sim_w s else sim_w s + 1), sim_S := Sb\<rparr>)
           = Inr (r, alpha, s2) \<and>
         length children = length X \<and>
         sim_C s' = sim_C s @
           [(l, r, if coalescence then sim_w s - 1 else sim_w s, children, sim_t s)])) \<and>
   (l \<in> set (map fst (sim_S s)) \<and> r_max \<in> set (map fst (sim_S s)) \<and> l < r_max \<and>
      sim_segment_stack s \<noteq> [] \<longrightarrow>
      (\<exists>res. mla_bound l r_max nX u pop_id s = Inr res))"
proof (intro conjI impI)
  assume a: "mla_bound l r_max nX u pop_id s = Inr (r, alpha, s') \<and>
      map_of (sim_S s) l = Some (int nX)"
  then have b: "mla_bound l r_max nX u pop_id s = Inr (r, alpha, s')"
    and c: "map_of (sim_S s) l = Some (int nX)" by simp_all
  from mla_bound_collapse[OF b c]
  show "succ_key (sim_S s) l = Inr r" "alpha = None" "sim_S s' = S_set (sim_S s) l 0"
    "sim_segment_stack s' = sim_segment_stack s" "sim_segments s' = sim_segments s" .
next
  assume a: "mla_bound l r_max nX u pop_id s = Inr (r, alpha, s') \<and>
      map_of (sim_S s) l \<noteq> Some (int nX)"
  then have b: "mla_bound l r_max nX u pop_id s = Inr (r, alpha, s')"
    and c: "map_of (sim_S s) l \<noteq> Some (int nX)" by simp_all
  from mla_bound_walk(1)[OF b c]
  show "\<exists>a. alpha = Some a \<and> sim_segment_stack s = a # sim_segment_stack s' \<and>
         seg s' a = \<lparr>seg_left = l, seg_right = r, seg_node = u, seg_population = pop_id,
           seg_prev = None, seg_next = None\<rparr>" .
  note w = S_walk_spec[OF mla_bound_walk(2)[OF b c]]
  from w show "l \<le> r" by blast
  from w show "r = l \<or> r \<in> set (map fst (sim_S s))" by blast
  from w show "r_max \<le> r \<or> map_of (sim_S s) r = Some (int nX)" by blast
  from w show "\<forall>k \<in> set (map fst (sim_S s)). l \<le> k \<and> k < r \<longrightarrow>
         k < r_max \<and> map_of (sim_S s) k \<noteq> Some (int nX) \<and>
         (\<exists>c. map_of (sim_S s) k = Some c \<and> map_of (sim_S s') k = Some (c - (int nX - 1)))"
    by blast
  from w show "\<forall>k. \<not> (l \<le> k \<and> k < r) \<longrightarrow> map_of (sim_S s') k = map_of (sim_S s) k"
    by blast
next
  assume "mla_coalesce l r_max X pop_id coalescence H s = Inr (alpha, c', H', s')"
  from mla_coalesce_spec[OF this]
  show "\<exists>Sa Sb r s2 children.
         S_ensure l (sim_S s) = Inr Sa \<and> S_ensure r_max Sa = Inr Sb \<and>
         mla_bound l r_max (length X) (if coalescence then sim_w s - 1 else sim_w s) pop_id
           (s\<lparr>sim_w := (if coalescence then sim_w s else sim_w s + 1), sim_S := Sb\<rparr>)
           = Inr (r, alpha, s2) \<and>
         length children = length X \<and>
         sim_C s' = sim_C s @
           [(l, r, if coalescence then sim_w s - 1 else sim_w s, children, sim_t s)]"
    by blast
next
  assume "l \<in> set (map fst (sim_S s)) \<and> r_max \<in> set (map fst (sim_S s)) \<and> l < r_max \<and>
      sim_segment_stack s \<noteq> []"
  then show "\<exists>res. mla_bound l r_max nX u pop_id s = Inr res"
    using mla_bound_total by blast
qed

theorem merge_coalescence_right_bound_counterexample:
  "S_get (sim_S example_sim) 0 = Inr 3 \<and> sim_segment_stack example_sim = [5, 4, 3, 2, 1] \<and>
   bound_view (mla_bound 0 10 3 3 0 example_sim) = Some (10, None, [5, 4, 3, 2, 1], [(0, 0), (10, - 1)]) \<and>
   bound_view (mla_bound 0 10 2 3 0 example_sim) = Some (10, Some 5, [4, 3, 2, 1], [(0, 2), (10, - 1)]) \<and>
   bound_view (mla_bound 0 10 2 3 0 (example_sim\<lparr>sim_S := [(0, 3), (4, 2), (10, - 1)]\<rparr>))
     = Some (4, Some 5, [4, 3, 2, 1], [(0, 2), (4, 2), (10, - 1)])"
  by code_simp

theorem merge_coalescence_right_bound_witness:
  "map_of (sim_S example_sim) 0 = Some (int 3) \<and>
   (\<exists>r alpha s'. mla_bound 0 10 3 3 0 example_sim = Inr (r, alpha, s') \<and>
      succ_key (sim_S example_sim) 0 = Inr r \<and> r = 10 \<and> alpha = None \<and>
      sim_segment_stack s' = sim_segment_stack example_sim) \<and>
   map_of (sim_S example_sim_walk) 0 \<noteq> Some (int 2) \<and>
   (\<exists>r alpha s'. mla_bound 0 10 2 3 0 example_sim_walk = Inr (r, alpha, s') \<and> r = 4 \<and>
      (\<exists>a. alpha = Some a \<and> sim_segment_stack example_sim_walk = a # sim_segment_stack s' \<and>
         seg s' a = \<lparr>seg_left = 0, seg_right = 4, seg_node = 3, seg_population = 0,
           seg_prev = None, seg_next = None\<rparr>) \<and>
      map_of (sim_S example_sim_walk) r = Some (int 2) \<and>
      map_of (sim_S s') 0 = Some 2 \<and> map_of (sim_S s') 10 = Some (- 1)) \<and>
   (\<exists>alpha c' H' s' r. mla_coalesce 0 10 [8, 7] 0 False [] example_sim = Inr (alpha, c', H', s') \<and>
      (\<exists>children. sim_C s' = sim_C example_sim @ [(0, r, sim_w example_sim, children, sim_t example_sim)])) \<and>
   0 \<in> set (map fst (sim_S example_sim)) \<and> 10 \<in> set (map fst (sim_S example_sim)) \<and>
   sim_segment_stack example_sim \<noteq> [] \<and>
   (\<exists>res. mla_bound 0 10 2 3 0 example_sim = Inr res)"
proof -
  note main = merge_coalescence_right_bound
  have S0: "sim_S example_sim = [(0, 3), (10, - 1)]" by code_simp
  have stack: "sim_segment_stack example_sim = [5, 4, 3, 2, 1]" by code_simp
  have m0: "map_of (sim_S example_sim) 0 = Some (int 3)" by (simp add: S0)
  have "case mla_bound 0 10 3 3 0 example_sim of Inr (r, alpha, s') \<Rightarrow> True | _ \<Rightarrow> False"
    by code_simp
  then obtain r1 alpha1 s1 where b1: "mla_bound 0 10 3 3 0 example_sim = Inr (r1, alpha1, s1)"
    by (auto split: sum.splits)
  from main[where l = 0 and r_max = 10 and nX = 3 and u = 3 and pop_id = 0 and s = example_sim
      and r = r1 and alpha = alpha1 and s' = s1, THEN conjunct1] b1 m0
  have c1: "succ_key (sim_S example_sim) 0 = Inr r1" "alpha1 = None"
    "sim_segment_stack s1 = sim_segment_stack example_sim"
    by simp_all
  have "succ_key (sim_S example_sim) 0 = Inr 10" by (simp add: S0 succ_key_def)
  with c1(1) have r1: "r1 = 10" by simp
  have Sw: "sim_S example_sim_walk = [(0, 3), (4, 2), (10, - 1)]"
    by (simp add: example_sim_walk_def)
  have mw: "map_of (sim_S example_sim_walk) 0 \<noteq> Some (int 2)" by (simp add: Sw)
  have "case mla_bound 0 10 2 3 0 example_sim_walk of
          Inr (r, alpha, s') \<Rightarrow> r = 4 | _ \<Rightarrow> False"
    by code_simp
  then obtain r2 alpha2 s2 where
    b2: "mla_bound 0 10 2 3 0 example_sim_walk = Inr (r2, alpha2, s2)" and r2: "r2 = 4"
    by (auto split: sum.splits)
  note w = main[where l = 0 and r_max = 10 and nX = 2 and u = 3 and pop_id = 0
      and s = example_sim_walk and r = r2 and alpha = alpha2 and s' = s2,
      THEN conjunct2, THEN conjunct1, rule_format, OF conjI[OF b2 mw]]
  from w have c2a: "\<exists>a. alpha2 = Some a \<and>
      sim_segment_stack example_sim_walk = a # sim_segment_stack s2 \<and>
      seg s2 a = \<lparr>seg_left = 0, seg_right = 4, seg_node = 3, seg_population = 0,
           seg_prev = None, seg_next = None\<rparr>"
    unfolding r2 by blast
  from w have "r_max \<le> r2 \<or> map_of (sim_S example_sim_walk) r2 = Some (int 2)" for r_max
    by (simp add: r2 Sw)
  then have c2b: "map_of (sim_S example_sim_walk) r2 = Some (int 2)" by (simp add: r2 Sw)
  from w have "\<forall>k \<in> set (map fst (sim_S example_sim_walk)). 0 \<le> k \<and> k < r2 \<longrightarrow>
      (\<exists>c. map_of (sim_S example_sim_walk) k = Some c \<and>
           map_of (sim_S s2) k = Some (c - (int 2 - 1)))"
    by blast
  then have c2c: "map_of (sim_S s2) 0 = Some 2" by (simp add: r2 Sw)
  from w have "\<forall>k. \<not> (0 \<le> k \<and> k < r2) \<longrightarrow>
      map_of (sim_S s2) k = map_of (sim_S example_sim_walk) k"
    by blast
  then have c2d: "map_of (sim_S s2) 10 = Some (- 1)" by (simp add: r2 Sw)
  have "case mla_coalesce 0 10 [8, 7] 0 False [] example_sim of
          Inr (alpha, c', H', s') \<Rightarrow> True | _ \<Rightarrow> False"
    by code_simp
  then obtain alpha3 c3 H3 s3 where
    b3: "mla_coalesce 0 10 [8, 7] 0 False [] example_sim = Inr (alpha3, c3, H3, s3)"
    by (auto split: sum.splits)
  from main[where l = 0 and r_max = 10 and X = "[8, 7]" and pop_id = 0 and coalescence = False
      and H = "[]" and s = example_sim and alpha = alpha3 and c' = c3 and H' = H3 and s' = s3,
      THEN conjunct2, THEN conjunct2, THEN conjunct1] b3
  have c3: "\<exists>r children. sim_C s3 = sim_C example_sim @
      [(0, r, sim_w example_sim, children, sim_t example_sim)]"
    by auto
  have keys: "0 \<in> set (map fst (sim_S example_sim))" "10 \<in> set (map fst (sim_S example_sim))"
    "sim_segment_stack example_sim \<noteq> []"
    by (simp_all add: S0 stack)
  from main[where l = 0 and r_max = 10 and nX = 2 and u = 3 and pop_id = 0 and s = example_sim,
      THEN conjunct2, THEN conjunct2, THEN conjunct2] keys
  have c4: "\<exists>res. mla_bound 0 10 2 3 0 example_sim = Inr res"
    by simp
  from m0 b1 c1 r1 mw b2 r2 c2a c2b c2c c2d b3 c3 keys c4 show ?thesis
    by blast
qed

section \<open>The seeds of the constructor, and run_simplify\<close>

lemma init_samples_frame:
  "init_samples samples ks sa = Inr sb \<Longrightarrow>
     sim_S sb = sim_S sa \<and> sim_n sb = sim_n sa \<and> sim_m sb = sim_m sa"
proof (induction ks arbitrary: sa)
  case Nil
  then show ?case by simp
next
  case (Cons k ks)
  show ?case
  proof (cases "int k \<in> set samples")
    case False
    with Cons show ?thesis by simp
  next
    case True
    with Cons.prems obtain x sa1 sa2 where
      al: "alloc_segment 0 (sim_m sa) (int k) (sim_pop_index sa) None None sa = Inr (x, sa1)"
      and pa: "pop_add (sim_pop_index sa1) x (L_set_value x (sim_m sa1 - 1) sa1) = Inr sa2"
      and rec: "init_samples samples ks (sa2\<lparr>sim_A := (sim_A sa2)(int k \<mapsto> x)\<rparr>) = Inr sb"
      by (auto split: sum.splits)
    from al have "sim_S sa1 = sim_S sa \<and> sim_n sa1 = sim_n sa \<and> sim_m sa1 = sim_m sa"
      by (auto simp: alloc_segment_def split: list.splits)
    moreover from pa have
      "sim_S sa2 = sim_S sa1 \<and> sim_n sa2 = sim_n sa1 \<and> sim_m sa2 = sim_m sa1"
      by (auto simp: pop_add_def L_set_value_def split: if_splits)
    ultimately show ?thesis using Cons.IH[OF rec] by simp
  qed
qed

lemma Simplifier_init_fields:
  assumes "Simplifier_init ts samples max_segments = Inr s"
  shows "sim_S s = S_set (S_set [] 0 (int (length (ts_samples ts)))) (ts_sequence_length ts) (- 1)"
    and "sim_w s = int (length (ts_samples ts))" and "sim_t s = 0"
    and "sim_n s = int (length (ts_samples ts))" and "sim_m s = ts_sequence_length ts"
proof -
  define n where "n = length (ts_samples ts)"
  define s0 where "s0 = \<lparr>sim_ts = ts, sim_n = int n, sim_m = ts_sequence_length ts,
                sim_max_segments = max_segments,
                sim_segment_stack = initial_stack max_segments,
                sim_segments = (\<lambda>j. blank_segment),
                sim_P = [[]], sim_C = [], sim_L = (\<lambda>j. 0), sim_S = [],
                sim_A = Map.empty, sim_pop_index = 0, sim_t = 0, sim_w = 0,
                sim_num_ca_events = 0, sim_num_re_events = 0\<rparr>"
  from assms obtain s1 where s1: "init_samples samples [0..<n] s0 = Inr s1"
    and s: "s = s1\<lparr>sim_S := S_set (S_set (sim_S s1) 0 (sim_n s1)) (sim_m s1) (- 1),
                      sim_t := 0, sim_w := sim_n s1,
                      sim_num_ca_events := 0, sim_num_re_events := 0\<rparr>"
    by (auto simp: Simplifier_init_def Let_def n_def[symmetric] s0_def[symmetric]
        split: sum.splits)
  from init_samples_frame[OF s1]
  have f: "sim_S s1 = []" "sim_n s1 = int n" "sim_m s1 = ts_sequence_length ts"
    by (simp_all add: s0_def)
  from s f show "sim_S s = S_set (S_set [] 0 (int (length (ts_samples ts)))) (ts_sequence_length ts) (- 1)"
    and "sim_w s = int (length (ts_samples ts))" and "sim_t s = 0"
    and "sim_n s = int (length (ts_samples ts))" and "sim_m s = ts_sequence_length ts"
    by (simp_all add: n_def)
qed

lemma Simplifier_init_returns:
  assumes "card {k. 0 \<le> k \<and> k < int (length (ts_samples ts)) \<and> k \<in> set samples} \<le> max_segments"
  shows "\<exists>s. Simplifier_init ts samples max_segments = Inr s"
proof -
  define n where "n = length (ts_samples ts)"
  define s0 where "s0 = \<lparr>sim_ts = ts, sim_n = int n, sim_m = ts_sequence_length ts,
                sim_max_segments = max_segments,
                sim_segment_stack = initial_stack max_segments,
                sim_segments = (\<lambda>j. blank_segment),
                sim_P = [[]], sim_C = [], sim_L = (\<lambda>j. 0), sim_S = [],
                sim_A = Map.empty, sim_pop_index = 0, sim_t = 0, sim_w = 0,
                sim_num_ca_events = 0, sim_num_re_events = 0\<rparr>"
  have "\<exists>s'. init_samples samples [0..<n] s0 = Inr s' \<and> init_post samples [0..<n] s0 s'"
    using assms
    by (intro init_samples_spec)
       (simp_all add: s0_def distinct_initial_stack length_initial_stack length_kept n_def)
  then show ?thesis
    by (auto simp: Simplifier_init_def Let_def n_def[symmetric] s0_def[symmetric])
qed

text \<open>
  Claim C1, as amended. Whenever the constructor returns, the Breakpoint Counter Map is
  seeded with \<open>0 \<mapsto> n\<close> and then \<open>sequence_length \<mapsto> -1\<close>, two entries when the sequence
  length is not 0, where \<open>n\<close> is the full sample count \<open>len(ts.samples())\<close> of \<open>ts\<close> and
  not the number of kept samples; the next-fresh-node-id counter \<open>w\<close> is \<open>n\<close>, so the
  first coalescent ancestor created receives the id \<open>n\<close> and the next one \<open>n + 1\<close>. The
  constructor returns whenever the kept samples below \<open>n\<close> fit the arena.
\<close>

theorem Simplifier_init_seeds_S_and_w:
  "(Simplifier_init ts samples max_segments = Inr s \<longrightarrow>
      map_of (sim_S s) = [0 \<mapsto> int (length (ts_samples ts)), ts_sequence_length ts \<mapsto> - 1] \<and>
      (ts_sequence_length ts \<noteq> 0 \<longrightarrow>
         sim_S s = [(0, int (length (ts_samples ts))), (ts_sequence_length ts, - 1)]) \<and>
      sim_w s = int (length (ts_samples ts)) \<and> sim_t s = 0 \<and>
      next_node_id False s
        = (True, int (length (ts_samples ts)), s\<lparr>sim_w := int (length (ts_samples ts)) + 1\<rparr>) \<and>
      next_node_id False (s\<lparr>sim_w := int (length (ts_samples ts)) + 1\<rparr>)
        = (True, int (length (ts_samples ts)) + 1,
           s\<lparr>sim_w := int (length (ts_samples ts)) + 2\<rparr>)) \<and>
   (card {k. 0 \<le> k \<and> k < int (length (ts_samples ts)) \<and> k \<in> set samples} \<le> max_segments \<longrightarrow>
      (\<exists>s1. Simplifier_init ts samples max_segments = Inr s1))"
proof (intro conjI impI)
  assume a: "Simplifier_init ts samples max_segments = Inr s"
  note f = Simplifier_init_fields[OF a]
  from f(1) show "map_of (sim_S s)
      = [0 \<mapsto> int (length (ts_samples ts)), ts_sequence_length ts \<mapsto> - 1]"
    by (simp add: map_of_S_set)
  from f(2) show "sim_w s = int (length (ts_samples ts))" .
  from f(3) show "sim_t s = 0" .
  from f(2) show "next_node_id False s
      = (True, int (length (ts_samples ts)), s\<lparr>sim_w := int (length (ts_samples ts)) + 1\<rparr>)"
    by (simp add: next_node_id_def Let_def)
  show "next_node_id False (s\<lparr>sim_w := int (length (ts_samples ts)) + 1\<rparr>)
      = (True, int (length (ts_samples ts)) + 1, s\<lparr>sim_w := int (length (ts_samples ts)) + 2\<rparr>)"
    by (simp add: next_node_id_def Let_def)
  assume "ts_sequence_length ts \<noteq> 0"
  with f(1) show "sim_S s = [(0, int (length (ts_samples ts))), (ts_sequence_length ts, - 1)]"
    by (simp add: S_set_def)
next
  assume "card {k. 0 \<le> k \<and> k < int (length (ts_samples ts)) \<and> k \<in> set samples} \<le> max_segments"
  then show "\<exists>s1. Simplifier_init ts samples max_segments = Inr s1"
    by (rule Simplifier_init_returns)
qed

theorem Simplifier_init_seeds_S_and_w_counterexample:
  "length [0, 1 :: int] = 2 \<and>
   init_view (Simplifier_init example_ts [0, 1] 8) = Some ([(0, 3), (10, - 1)], 3)"
  by (simp add: init_view_def Simplifier_init_def Let_def ts_samples_def example_ts_def
      is_sample_def upt_rec initial_stack_def alloc_segment_def pop_add_def L_set_value_def
      S_set_def)

theorem Simplifier_init_seeds_S_and_w_witness:
  "Simplifier_init example_ts [0, 1, 2] 8 = Inr example_sim \<and>
   ts_sequence_length example_ts \<noteq> 0 \<and>
   sim_S example_sim = [(0, 3), (10, - 1)] \<and> sim_w example_sim = 3 \<and>
   next_node_id False example_sim = (True, 3, example_sim\<lparr>sim_w := 4\<rparr>) \<and>
   card {k. 0 \<le> k \<and> k < int (length (ts_samples example_ts)) \<and> k \<in> set [0, 1]} \<le> 8 \<and>
   (\<exists>s1. Simplifier_init example_ts [0, 1] 8 = Inr s1)"
proof -
  note main = Simplifier_init_seeds_S_and_w
  have sl: "ts_sequence_length example_ts \<noteq> 0" "ts_sequence_length example_ts = 10"
    by (simp_all add: example_ts_def)
  from main[where ts = example_ts and samples = "[0, 1, 2]" and max_segments = 8
      and s = example_sim, THEN conjunct1] example_sim_init sl
  have c1: "sim_S example_sim = [(0, 3), (10, - 1)]" "sim_w example_sim = 3"
    "next_node_id False example_sim = (True, 3, example_sim\<lparr>sim_w := 4\<rparr>)"
    by (simp_all add: example_ts_samples)
  have set_eq: "{k. 0 \<le> k \<and> k < int (length (ts_samples example_ts)) \<and> k \<in> set [0, 1]} = {0, 1}"
    by (auto simp: example_ts_samples)
  have h: "card {k. 0 \<le> k \<and> k < int (length (ts_samples example_ts)) \<and> k \<in> set [0, 1]} \<le> 8"
    unfolding set_eq by simp
  from main[where ts = example_ts and samples = "[0, 1]" and max_segments = 8,
      THEN conjunct2] h
  have c2: "\<exists>s1. Simplifier_init example_ts [0, 1] 8 = Inr s1" by blast
  from example_sim_init sl(1) c1 h c2 show ?thesis by blast
qed

text \<open>
  Claim C4. In \<open>run_simplify\<close> the subset is drawn from the pseudorandom source as it is
  on entry, and the seed is applied to the source only after the draw: the subset, and
  with it the whole simplified output, of two runs from the same initial state of the
  source is the same whatever the two seeds are.
\<close>

theorem run_simplify_seed_after_draw:
  "run_view (run_simplify rs be fuel edgesets (a\<lparr>arg_random_seed := seed1\<rparr>) g)
     = run_view (run_simplify rs be fuel edgesets (a\<lparr>arg_random_seed := seed2\<rparr>) g) \<and>
   (run_simplify rs be fuel edgesets a g = Some (Inr (samples, s, g')) \<longrightarrow>
      (\<exists>g1. rs_sample rs g (ts_samples (arg_tree_sequence a)) (arg_sample_size a)
               = Inr (samples, g1) \<and>
            g' = rs_seed rs (arg_random_seed a) g1))"
proof
  show "run_view (run_simplify rs be fuel edgesets (a\<lparr>arg_random_seed := seed1\<rparr>) g)
     = run_view (run_simplify rs be fuel edgesets (a\<lparr>arg_random_seed := seed2\<rparr>) g)"
    by (simp add: run_view_def run_simplify_def Let_def split: sum.splits option.splits)
  show "run_simplify rs be fuel edgesets a g = Some (Inr (samples, s, g')) \<longrightarrow>
      (\<exists>g1. rs_sample rs g (ts_samples (arg_tree_sequence a)) (arg_sample_size a)
               = Inr (samples, g1) \<and>
            g' = rs_seed rs (arg_random_seed a) g1)"
    by (auto simp: run_simplify_def Let_def split: sum.splits option.splits)
qed

theorem run_simplify_seed_after_draw_witness:
  "(\<exists>s g'. run_simplify example_random example_engine 5 example_edgesets (example_args 1) 0
        = Some (Inr ([0, 1], s, g')) \<and> g' = 1) \<and>
   (\<exists>s g'. run_simplify example_random example_engine 5 example_edgesets (example_args 7) 0
        = Some (Inr ([0, 1], s, g')) \<and> g' = 7) \<and>
   rs_sample example_random 0 (ts_samples example_ts) 2 = Inr ([0, 1], 1)"
proof -
  note main = run_simplify_seed_after_draw
  have "case run_simplify example_random example_engine 5 example_edgesets (example_args 1) 0 of
          Some (Inr (samples, s, g')) \<Rightarrow> True | _ \<Rightarrow> False"
    by code_simp
  then obtain sm1 s1 g1 where
    r1: "run_simplify example_random example_engine 5 example_edgesets (example_args 1) 0
        = Some (Inr (sm1, s1, g1))"
    by (auto split: option.splits sum.splits)
  have "case run_simplify example_random example_engine 5 example_edgesets (example_args 7) 0 of
          Some (Inr (samples, s, g')) \<Rightarrow> True | _ \<Rightarrow> False"
    by code_simp
  then obtain sm7 s7 g7 where
    r7: "run_simplify example_random example_engine 5 example_edgesets (example_args 7) 0
        = Some (Inr (sm7, s7, g7))"
    by (auto split: option.splits sum.splits)
  have draw: "rs_sample example_random 0 (ts_samples example_ts) 2 = Inr ([0, 1], 1)"
    by (simp add: example_random_def example_ts_samples)
  from main[where rs = example_random and be = example_engine and fuel = 5
      and edgesets = example_edgesets and a = "example_args 1" and g = 0 and samples = sm1
      and s = s1 and g' = g1, THEN conjunct2] r1 draw
  have c1: "sm1 = [0, 1]" "g1 = 1"
    by (auto simp: example_args_def example_random_def)
  from main[where rs = example_random and be = example_engine and fuel = 5
      and edgesets = example_edgesets and a = "example_args 7" and g = 0 and samples = sm7
      and s = s7 and g' = g7, THEN conjunct2] r7 draw
  have c7: "sm7 = [0, 1]" "g7 = 7"
    by (auto simp: example_args_def example_random_def)
  from r1 r7 c1 c7 draw show ?thesis by blast
qed

section \<open>insert_redundant_breakpoints and jiggle_samples\<close>




lemma load_tables_Inr:
  "load_tables lib t = Inr ts' \<Longrightarrow>
     lib_accepts lib t \<and> ts_nodes ts' = tc_nodes t \<and> ts_edges ts' = tc_edges t \<and>
     ts_sites ts' = tc_sites t \<and> ts_mutations ts' = tc_mutations t"
  by (auto simp: load_tables_def split: if_splits)

lemma load_tables_accepts:
  "lib_accepts lib t \<Longrightarrow> \<exists>ts'. load_tables lib t = Inr ts'"
  by (simp add: load_tables_def)




lemma set_columns_Inr:
  assumes "set_columns flags time = Inr nodes"
  shows "length nodes = length flags" "length time = length flags"
    "map n_flags nodes = flags" "map n_time nodes = time"
    "\<forall>nd \<in> set nodes. n_name nd = [] \<and> n_population nd = NULL_POPULATION"
proof -
  from assms have l: "length flags = length time"
    and n: "nodes = map (\<lambda>(f, t). \<lparr>n_flags = f, n_name = [], n_population = NULL_POPULATION,
                                n_time = t\<rparr>) (zip flags time)"
    by (auto simp: set_columns_def split: if_splits)
  from l n show "length nodes = length flags" "length time = length flags" by simp_all
  have "map n_flags nodes = map fst (zip flags time)"
    unfolding n by (simp add: case_prod_beta comp_def)
  with l show "map n_flags nodes = flags" by simp
  have "map n_time nodes = map snd (zip flags time)"
    unfolding n by (simp add: case_prod_beta comp_def)
  with l show "map n_time nodes = time" by simp
  show "\<forall>nd \<in> set nodes. n_name nd = [] \<and> n_population nd = NULL_POPULATION"
    unfolding n by auto
qed

lemma length_slice_assign: "length (slice_assign xs a b v) = length xs"
proof -
  have "slice_bound (length xs) b \<le> length xs" by (auto simp: slice_bound_def)
  then show ?thesis by (auto simp: slice_assign_def Let_def)
qed

lemma jiggle_tables_Inr:
  assumes "jiggle_tables ts = Inr t"
  shows "tc_sites t = []" "tc_mutations t = []" "tc_edges t = ts_edges ts"
    "length (tc_nodes t) = length (ts_nodes ts)"
    "map n_time (tc_nodes t) = map n_time (ts_nodes ts)"
    "\<forall>nd \<in> set (tc_nodes t). n_name nd = [] \<and> n_population nd = NULL_POPULATION"
    "\<exists>oldest_parent. py_get (map e_parent (ts_edges ts)) (- 1) = Inr oldest_parent \<and>
        map n_flags (tc_nodes t) =
          slice_assign (slice_assign (map n_flags (ts_nodes ts)) 0 (sample_size ts div 2) 0)
            (oldest_parent - sample_size ts div 2) oldest_parent 1"
proof -
  from assms obtain op nodes1 where
    op: "py_get (map e_parent (ts_edges ts)) (- 1) = Inr op"
    and sc: "set_columns
        (slice_assign (slice_assign (map n_flags (ts_nodes ts)) 0 (sample_size ts div 2) 0)
            (op - sample_size ts div 2) op 1) (map n_time (ts_nodes ts)) = Inr nodes1"
    and t: "t = \<lparr>tc_nodes = nodes1, tc_edges = ts_edges ts, tc_sites = [], tc_mutations = []\<rparr>"
    by (auto simp: jiggle_tables_def dump_tables_def Let_def split: sum.splits)
  note f = set_columns_Inr[OF sc]
  from t show "tc_sites t = []" "tc_mutations t = []" "tc_edges t = ts_edges ts" by simp_all
  from t f(1) show "length (tc_nodes t) = length (ts_nodes ts)"
    by (simp add: length_slice_assign)
  from t f(4) show "map n_time (tc_nodes t) = map n_time (ts_nodes ts)" by simp
  from t f(5) show "\<forall>nd \<in> set (tc_nodes t). n_name nd = [] \<and> n_population nd = NULL_POPULATION"
    by simp
  from t f(3) op show "\<exists>oldest_parent. py_get (map e_parent (ts_edges ts)) (- 1) = Inr oldest_parent \<and>
        map n_flags (tc_nodes t) =
          slice_assign (slice_assign (map n_flags (ts_nodes ts)) 0 (sample_size ts div 2) 0)
            (oldest_parent - sample_size ts div 2) oldest_parent 1"
    by simp
qed

lemma jiggle_tables_returns:
  assumes "ts_edges ts \<noteq> []"
  shows "\<exists>t. jiggle_tables ts = Inr t"
proof -
  from assms have "\<exists>op. py_get (map e_parent (ts_edges ts)) (- 1) = Inr op"
    by (cases "ts_edges ts") (auto simp: py_get_def py_position_def)
  then show ?thesis
    by (auto simp: jiggle_tables_def dump_tables_def Let_def set_columns_def length_slice_assign)
qed

text \<open>
  Claim C9. Whenever \<open>jiggle_samples\<close> returns a tree sequence, it has no sites and no
  mutations, it has as many nodes as the original, and every node's name is the empty
  default and its population the null default. It returns whenever the original has an
  edge and the library accepts the tables.
\<close>

theorem jiggle_samples_drops_sites_names_populations:
  "(jiggle_samples lib ts = Inr ts' \<longrightarrow>
      ts_sites ts' = [] \<and> ts_mutations ts' = [] \<and>
      length (ts_nodes ts') = length (ts_nodes ts) \<and>
      (\<forall>nd \<in> set (ts_nodes ts'). n_name nd = [] \<and> n_population nd = NULL_POPULATION)) \<and>
   (ts_edges ts \<noteq> [] \<longrightarrow>
      (\<exists>t. jiggle_tables ts = Inr t \<and>
         (lib_accepts lib t \<longrightarrow> (\<exists>ts1. jiggle_samples lib ts = Inr ts1))))"
proof (intro conjI impI)
  assume "jiggle_samples lib ts = Inr ts'"
  then obtain t where t: "jiggle_tables ts = Inr t" and l: "load_tables lib t = Inr ts'"
    by (auto simp: jiggle_samples_def split: sum.splits)
  note f = jiggle_tables_Inr[OF t] and g = load_tables_Inr[OF l]
  from f g show "ts_sites ts' = []" "ts_mutations ts' = []"
    "length (ts_nodes ts') = length (ts_nodes ts)"
    "\<forall>nd \<in> set (ts_nodes ts'). n_name nd = [] \<and> n_population nd = NULL_POPULATION"
    by simp_all
next
  assume "ts_edges ts \<noteq> []"
  from jiggle_tables_returns[OF this] obtain t where t: "jiggle_tables ts = Inr t" by blast
  have "lib_accepts lib t \<longrightarrow> (\<exists>ts1. jiggle_samples lib ts = Inr ts1)"
    using t load_tables_accepts[of lib t] by (auto simp: jiggle_samples_def)
  with t show "\<exists>t. jiggle_tables ts = Inr t \<and>
         (lib_accepts lib t \<longrightarrow> (\<exists>ts1. jiggle_samples lib ts = Inr ts1))"
    by blast
qed

theorem jiggle_samples_drops_sites_names_populations_witness:
  "ts_edges example_ts \<noteq> [] \<and>
   (\<exists>ts'. jiggle_samples example_library example_ts = Inr ts' \<and>
      ts_sites ts' = [] \<and> ts_mutations ts' = [] \<and> length (ts_nodes ts') = 5 \<and>
      (\<forall>nd \<in> set (ts_nodes ts'). n_name nd = [] \<and> n_population nd = NULL_POPULATION)) \<and>
   map n_name (ts_nodes example_ts) = [''a'', ''b'', ''c'', ''d'', ''e''] \<and>
   map n_population (ts_nodes example_ts) = [0, 0, 0, 0, 0]"
proof -
  note main = jiggle_samples_drops_sites_names_populations
  have e: "ts_edges example_ts \<noteq> []" "length (ts_nodes example_ts) = 5"
    "map n_name (ts_nodes example_ts) = [''a'', ''b'', ''c'', ''d'', ''e'']"
    "map n_population (ts_nodes example_ts) = [0, 0, 0, 0, 0]"
    by (simp_all add: example_ts_def)
  from main[where lib = example_library and ts = example_ts, THEN conjunct2] e(1)
  obtain ts' where r: "jiggle_samples example_library example_ts = Inr ts'"
    by (auto simp: example_library_def)
  from main[where lib = example_library and ts = example_ts and ts' = ts', THEN conjunct1] r e(2)
  have "ts_sites ts' = [] \<and> ts_mutations ts' = [] \<and> length (ts_nodes ts') = 5 \<and>
      (\<forall>nd \<in> set (ts_nodes ts'). n_name nd = [] \<and> n_population nd = NULL_POPULATION)"
    by simp
  with e r show ?thesis by blast
qed

section \<open>The sample flags after jiggle_samples\<close>

lemma slice_bound_le: "slice_bound len i \<le> len"
  by (auto simp: slice_bound_def)

lemma nth_slice_assign:
  assumes "j < length xs"
  shows "slice_assign xs a b v ! j =
     (if slice_bound (length xs) a \<le> j \<and> j < slice_bound (length xs) b then v else xs ! j)"
proof -
  define lo where "lo = slice_bound (length xs) a"
  define hi where "hi = slice_bound (length xs) b"
  have hi: "hi \<le> length xs" unfolding hi_def by (rule slice_bound_le)
  show ?thesis
  proof (cases "lo < hi")
    case False
    then have "slice_assign xs a b v = xs"
      by (simp add: slice_assign_def Let_def lo_def hi_def)
    moreover from False have "\<not> (lo \<le> j \<and> j < hi)" by linarith
    ultimately show ?thesis unfolding lo_def hi_def by auto
  next
    case True
    have eq: "slice_assign xs a b v = take lo xs @ replicate (hi - lo) v @ drop hi xs"
      using True by (simp add: slice_assign_def Let_def lo_def hi_def)
    have len: "length (take lo xs) = lo" using True hi by simp
    consider "j < lo" | "lo \<le> j" "j < hi" | "hi \<le> j" by linarith
    then show ?thesis
    proof cases
      case 1
      then have "(take lo xs @ replicate (hi - lo) v @ drop hi xs) ! j = xs ! j"
        using len by (simp add: nth_append)
      with 1 show ?thesis
        unfolding eq lo_def[symmetric] hi_def[symmetric] by simp
    next
      case 2
      then have a: "\<not> j < lo" "j - lo < hi - lo" by simp_all
      have "(take lo xs @ replicate (hi - lo) v @ drop hi xs) ! j = v"
        using a len by (simp add: nth_append)
      with 2 show ?thesis
        unfolding eq lo_def[symmetric] hi_def[symmetric] by simp
    next
      case 3
      then have a: "\<not> j < lo" "\<not> j - lo < hi - lo" "hi + (j - lo - (hi - lo)) = j"
        using True by simp_all
      have "(take lo xs @ replicate (hi - lo) v @ drop hi xs) ! j = xs ! j"
        using a len hi assms by (simp add: nth_append)
      with 3 show ?thesis
        unfolding eq lo_def[symmetric] hi_def[symmetric] by simp
    qed
  qed
qed

lemma length_ts_samples:
  "length (ts_samples ts) = card {j. j < length (ts_nodes ts) \<and> is_sample (ts_nodes ts ! j)}"
proof -
  have "distinct (filter (\<lambda>j. is_sample (ts_nodes ts ! j)) [0..<length (ts_nodes ts)])"
    by simp
  from distinct_card[OF this] have "length (ts_samples ts)
      = card (set (filter (\<lambda>j. is_sample (ts_nodes ts ! j)) [0..<length (ts_nodes ts)]))"
    by (simp add: ts_samples_def del: set_filter)
  also have "set (filter (\<lambda>j. is_sample (ts_nodes ts ! j)) [0..<length (ts_nodes ts)])
      = {j. j < length (ts_nodes ts) \<and> is_sample (ts_nodes ts ! j)}"
    by auto
  finally show ?thesis .
qed

lemma set_ts_samples:
  "set (ts_samples ts) = int ` {j. j < length (ts_nodes ts) \<and> is_sample (ts_nodes ts ! j)}"
  by (auto simp: ts_samples_def)

lemma jiggle_samples_Inr:
  assumes "jiggle_samples lib ts = Inr ts'"
  shows "ts_edges ts' = ts_edges ts" "map n_time (ts_nodes ts') = map n_time (ts_nodes ts)"
    "length (ts_nodes ts') = length (ts_nodes ts)"
    "\<exists>oldest_parent. py_get (map e_parent (ts_edges ts)) (- 1) = Inr oldest_parent \<and>
        map n_flags (ts_nodes ts') =
          slice_assign (slice_assign (map n_flags (ts_nodes ts)) 0 (sample_size ts div 2) 0)
            (oldest_parent - sample_size ts div 2) oldest_parent 1"
proof -
  from assms obtain t where t: "jiggle_tables ts = Inr t" and l: "load_tables lib t = Inr ts'"
    by (auto simp: jiggle_samples_def split: sum.splits)
  note f = jiggle_tables_Inr[OF t] and g = load_tables_Inr[OF l]
  from f g show "ts_edges ts' = ts_edges ts" "map n_time (ts_nodes ts') = map n_time (ts_nodes ts)"
    "length (ts_nodes ts') = length (ts_nodes ts)"
    by simp_all
  from f(7) g show "\<exists>oldest_parent. py_get (map e_parent (ts_edges ts)) (- 1) = Inr oldest_parent \<and>
        map n_flags (ts_nodes ts') =
          slice_assign (slice_assign (map n_flags (ts_nodes ts)) 0 (sample_size ts div 2) 0)
            (oldest_parent - sample_size ts div 2) oldest_parent 1"
    by simp
qed

lemma jiggle_flags:
  assumes r: "jiggle_samples lib ts = Inr ts'"
    and op: "py_get (map e_parent (ts_edges ts)) (- 1) = Inr oldest_parent"
    and h: "h = nat (sample_size ts div 2)"
    and range: "2 * int h \<le> oldest_parent" "oldest_parent \<le> int (length (ts_nodes ts))"
    and j: "j < length (ts_nodes ts)"
  shows "n_flags (ts_nodes ts' ! j) =
     (if nat oldest_parent - h \<le> j \<and> j < nat oldest_parent then 1
      else if j < h then 0 else n_flags (ts_nodes ts ! j))"
proof -
  define N where "N = length (ts_nodes ts)"
  define F where "F = map n_flags (ts_nodes ts)"
  from jiggle_samples_Inr(3,4)[OF r] op
  have len: "length (ts_nodes ts') = N"
    and fl: "map n_flags (ts_nodes ts') =
          slice_assign (slice_assign F 0 (sample_size ts div 2) 0)
            (oldest_parent - sample_size ts div 2) oldest_parent 1"
    by (simp_all add: N_def F_def)
  have hh: "sample_size ts div 2 = int h"
    unfolding h sample_size_def by simp
  have lenF: "length F = N" by (simp add: F_def N_def)
  have b0: "slice_bound N 0 = 0" by (simp add: slice_bound_def)
  have b1: "slice_bound N (int h) = h" using range by (simp add: slice_bound_def N_def)
  have b2: "slice_bound N (oldest_parent - int h) = nat oldest_parent - h"
    using range by (auto simp: slice_bound_def N_def)
  have b3: "slice_bound N oldest_parent = nat oldest_parent"
    using range by (auto simp: slice_bound_def N_def)
  have "n_flags (ts_nodes ts' ! j) = map n_flags (ts_nodes ts') ! j"
    using j len by (simp add: N_def)
  also have "\<dots> = (if nat oldest_parent - h \<le> j \<and> j < nat oldest_parent then 1
      else slice_assign F 0 (int h) 0 ! j)"
    unfolding fl hh using j
    by (subst nth_slice_assign) (simp_all add: length_slice_assign lenF N_def[symmetric] b2 b3)
  also have "slice_assign F 0 (int h) 0 ! j = (if j < h then 0 else F ! j)"
    using j by (subst nth_slice_assign) (simp_all add: lenF N_def[symmetric] b0 b1)
  also have "F ! j = n_flags (ts_nodes ts ! j)" using j by (simp add: F_def)
  finally show ?thesis .
qed

lemma jiggle_samples_moved:
  assumes r: "jiggle_samples lib ts = Inr ts'"
    and op: "py_get (map e_parent (ts_edges ts)) (- 1) = Inr oldest_parent"
    and range: "2 * (sample_size ts div 2) \<le> oldest_parent"
      "oldest_parent \<le> int (length (ts_nodes ts))"
    and first: "\<forall>j. int j < sample_size ts div 2 \<longrightarrow> is_sample (ts_nodes ts ! j)"
    and free: "\<forall>j. oldest_parent - sample_size ts div 2 \<le> int j \<and> int j < oldest_parent \<longrightarrow>
        \<not> is_sample (ts_nodes ts ! j)"
  shows "\<forall>j. j < length (ts_nodes ts) \<longrightarrow>
      (is_sample (ts_nodes ts' ! j) \<longleftrightarrow>
         (oldest_parent - sample_size ts div 2 \<le> int j \<and> int j < oldest_parent) \<or>
         (sample_size ts div 2 \<le> int j \<and> is_sample (ts_nodes ts ! j)))"
    and "length (ts_samples ts') = length (ts_samples ts)"
    and "2 \<le> sample_size ts \<longrightarrow> ts_samples ts' \<noteq> ts_samples ts"
proof -
  define N where "N = length (ts_nodes ts)"
  define h where "h = nat (sample_size ts div 2)"
  define q where "q = nat oldest_parent"
  have nonneg: "0 \<le> sample_size ts" by (simp add: sample_size_def)
  have hh: "sample_size ts div 2 = int h" unfolding h_def using nonneg by simp
  have oo: "oldest_parent = int q" unfolding q_def using range(1) hh by simp
  have ho: "2 * h \<le> q" "q \<le> N" using range hh oo by (simp_all add: N_def)
  have len': "length (ts_nodes ts') = N"
    using jiggle_samples_Inr(3)[OF r] by (simp add: N_def)
  have flags: "n_flags (ts_nodes ts' ! j) =
     (if q - h \<le> j \<and> j < q then 1 else if j < h then 0 else n_flags (ts_nodes ts ! j))"
    if "j < N" for j
    using jiggle_flags[OF r op h_def _ _ that[unfolded N_def]] range hh
    by (simp add: q_def)
  have pt: "is_sample (ts_nodes ts' ! j) \<longleftrightarrow>
      (q - h \<le> j \<and> j < q) \<or> (h \<le> j \<and> is_sample (ts_nodes ts ! j))" if "j < N" for j
    using flags[OF that] by (auto simp: is_sample_def)
  show c1: "\<forall>j. j < length (ts_nodes ts) \<longrightarrow>
      (is_sample (ts_nodes ts' ! j) \<longleftrightarrow>
         (oldest_parent - sample_size ts div 2 \<le> int j \<and> int j < oldest_parent) \<or>
         (sample_size ts div 2 \<le> int j \<and> is_sample (ts_nodes ts ! j)))"
  proof (intro allI impI)
    fix j assume "j < length (ts_nodes ts)"
    then have "j < N" by (simp add: N_def)
    from pt[OF this] ho show "is_sample (ts_nodes ts' ! j) \<longleftrightarrow>
         (oldest_parent - sample_size ts div 2 \<le> int j \<and> int j < oldest_parent) \<or>
         (sample_size ts div 2 \<le> int j \<and> is_sample (ts_nodes ts ! j))"
      unfolding hh oo by (simp add: of_nat_diff[symmetric] del: of_nat_diff)
  qed
  define S where "S = {j. j < N \<and> is_sample (ts_nodes ts ! j)}"
  define S' where "S' = {j. j < N \<and> is_sample (ts_nodes ts' ! j)}"
  have finS: "finite S" by (simp add: S_def)
  have sub: "{..<h} \<subseteq> S"
  proof
    fix j assume "j \<in> {..<h}"
    then have "j < h" by simp
    with first hh have "is_sample (ts_nodes ts ! j)" by simp
    moreover from \<open>j < h\<close> ho have "j < N" by simp
    ultimately show "j \<in> S" by (simp add: S_def)
  qed
  have disj: "{q - h..<q} \<inter> S = {}"
  proof -
    have "\<not> is_sample (ts_nodes ts ! j)" if "q - h \<le> j" "j < q" for j
    proof -
      from that ho have "oldest_parent - sample_size ts div 2 \<le> int j \<and> int j < oldest_parent"
        unfolding hh oo by linarith
      with free show ?thesis by blast
    qed
    then show ?thesis by (auto simp: S_def)
  qed
  have S'eq: "S' = {q - h..<q} \<union> (S - {..<h})"
    using pt ho by (auto simp: S'_def S_def)
  have "card S' = card {q - h..<q} + card (S - {..<h})"
    unfolding S'eq using disj finS by (intro card_Un_disjoint) auto
  also have "card {q - h..<q} = h" using ho by simp
  also have "card (S - {..<h}) = card S - h"
    using sub finS by (simp add: card_Diff_subset)
  also have "h + (card S - h) = card S"
  proof -
    have "card {..<h} \<le> card S" using sub finS by (rule card_mono[rotated])
    then show ?thesis by simp
  qed
  finally have "card S' = card S" .
  then show "length (ts_samples ts') = length (ts_samples ts)"
    by (simp add: length_ts_samples S_def S'_def len' N_def[symmetric])
  show "2 \<le> sample_size ts \<longrightarrow> ts_samples ts' \<noteq> ts_samples ts"
  proof
    assume "2 \<le> sample_size ts"
    then have hpos: "0 < h" unfolding h_def by simp
    then have "0 \<in> S" using sub by auto
    moreover have "0 \<notin> S'" using hpos ho unfolding S'eq by auto
    ultimately have "S \<noteq> S'" by blast
    moreover have "set (ts_samples ts) = int ` S" "set (ts_samples ts') = int ` S'"
      by (simp_all add: set_ts_samples S_def S'_def len' N_def[symmetric])
    ultimately have "set (ts_samples ts) \<noteq> set (ts_samples ts')"
      by (simp add: inj_image_eq_iff)
    then show "ts_samples ts' \<noteq> ts_samples ts" by auto
  qed
qed

text \<open>
  Claim C8, as amended. Whenever \<open>jiggle_samples\<close> returns, no edge record and no node
  time value has changed. When moreover the first \<open>n div 2\<close> node ids are samples (\<open>n\<close>
  the sample count) and the range of \<open>n div 2\<close> ids ending at the last edge's parent id
  (the id itself left out) lies among the node ids from \<open>n div 2\<close> on and holds no
  sample, then the nodes carrying the sample flag afterwards are that range and the
  original samples from \<open>n div 2\<close> on, their total number is the one before, and for \<open>n\<close> of
  at least 2 they are not the ids that carried it before.
\<close>

theorem jiggle_samples_moves_sample_flags:
  "(jiggle_samples lib ts = Inr ts' \<longrightarrow>
      ts_edges ts' = ts_edges ts \<and> map n_time (ts_nodes ts') = map n_time (ts_nodes ts) \<and>
      length (ts_nodes ts') = length (ts_nodes ts)) \<and>
   (jiggle_samples lib ts = Inr ts' \<and>
    py_get (map e_parent (ts_edges ts)) (- 1) = Inr oldest_parent \<and>
    2 * (sample_size ts div 2) \<le> oldest_parent \<and>
    oldest_parent \<le> int (length (ts_nodes ts)) \<and>
    (\<forall>j. int j < sample_size ts div 2 \<longrightarrow> is_sample (ts_nodes ts ! j)) \<and>
    (\<forall>j. oldest_parent - sample_size ts div 2 \<le> int j \<and> int j < oldest_parent \<longrightarrow>
        \<not> is_sample (ts_nodes ts ! j)) \<longrightarrow>
      (\<forall>j. j < length (ts_nodes ts) \<longrightarrow>
         (is_sample (ts_nodes ts' ! j) \<longleftrightarrow>
            (oldest_parent - sample_size ts div 2 \<le> int j \<and> int j < oldest_parent) \<or>
            (sample_size ts div 2 \<le> int j \<and> is_sample (ts_nodes ts ! j)))) \<and>
      length (ts_samples ts') = length (ts_samples ts) \<and>
      (2 \<le> sample_size ts \<longrightarrow> ts_samples ts' \<noteq> ts_samples ts))"
proof (intro conjI impI)
  assume r: "jiggle_samples lib ts = Inr ts'"
  from jiggle_samples_Inr(1-3)[OF r]
  show "ts_edges ts' = ts_edges ts" "map n_time (ts_nodes ts') = map n_time (ts_nodes ts)"
    "length (ts_nodes ts') = length (ts_nodes ts)" .
next
  assume a: "jiggle_samples lib ts = Inr ts' \<and>
    py_get (map e_parent (ts_edges ts)) (- 1) = Inr oldest_parent \<and>
    2 * (sample_size ts div 2) \<le> oldest_parent \<and>
    oldest_parent \<le> int (length (ts_nodes ts)) \<and>
    (\<forall>j. int j < sample_size ts div 2 \<longrightarrow> is_sample (ts_nodes ts ! j)) \<and>
    (\<forall>j. oldest_parent - sample_size ts div 2 \<le> int j \<and> int j < oldest_parent \<longrightarrow>
        \<not> is_sample (ts_nodes ts ! j))"
  then have r: "jiggle_samples lib ts = Inr ts'"
    and op: "py_get (map e_parent (ts_edges ts)) (- 1) = Inr oldest_parent"
    and range: "2 * (sample_size ts div 2) \<le> oldest_parent"
      "oldest_parent \<le> int (length (ts_nodes ts))"
    and first: "\<forall>j. int j < sample_size ts div 2 \<longrightarrow> is_sample (ts_nodes ts ! j)"
    and free: "\<forall>j. oldest_parent - sample_size ts div 2 \<le> int j \<and> int j < oldest_parent \<longrightarrow>
        \<not> is_sample (ts_nodes ts ! j)"
    by blast+
  note m = jiggle_samples_moved[OF r op range first free]
  from m(1) show "\<forall>j. j < length (ts_nodes ts) \<longrightarrow>
         (is_sample (ts_nodes ts' ! j) \<longleftrightarrow>
            (oldest_parent - sample_size ts div 2 \<le> int j \<and> int j < oldest_parent) \<or>
            (sample_size ts div 2 \<le> int j \<and> is_sample (ts_nodes ts ! j)))" .
  from m(2) show "length (ts_samples ts') = length (ts_samples ts)" .
  assume "2 \<le> sample_size ts"
  with m(3) show "ts_samples ts' \<noteq> ts_samples ts" by blast
qed

theorem jiggle_samples_moves_sample_flags_counterexample:
  "ts_samples example_ts2 = [0, 1] \<and>
   samples_view (jiggle_samples example_library example_ts2) = Some [1]"
  by (simp add: samples_view_def jiggle_samples_def jiggle_tables_def dump_tables_def
      example_ts2_def example_library_def load_tables_def ts_samples_def is_sample_def
      sample_size_def py_get_def py_position_def slice_assign_def slice_bound_def
      set_columns_def Let_def upt_rec)

theorem jiggle_samples_moves_sample_flags_witness:
  "py_get (map e_parent (ts_edges example_ts)) (- 1) = Inr 4 \<and> sample_size example_ts = 3 \<and>
   ts_samples example_ts = [0, 1, 2] \<and>
   (\<exists>ts'. jiggle_samples example_library example_ts = Inr ts' \<and>
      ts_edges ts' = ts_edges example_ts \<and>
      map n_time (ts_nodes ts') = map n_time (ts_nodes example_ts) \<and>
      length (ts_samples ts') = 3 \<and> ts_samples ts' \<noteq> ts_samples example_ts \<and>
      is_sample (ts_nodes ts' ! 3) \<and> \<not> is_sample (ts_nodes ts' ! 0))"
proof -
  note main = jiggle_samples_moves_sample_flags
  have "case jiggle_samples example_library example_ts of Inr ts' \<Rightarrow> True | _ \<Rightarrow> False"
    by (simp add: jiggle_samples_def jiggle_tables_def dump_tables_def
      example_ts_def example_library_def load_tables_def ts_samples_def is_sample_def
      sample_size_def py_get_def py_position_def slice_assign_def slice_bound_def
      set_columns_def Let_def upt_rec)
  then obtain ts' where r: "jiggle_samples example_library example_ts = Inr ts'"
    by (auto split: sum.splits)
  have op: "py_get (map e_parent (ts_edges example_ts)) (- 1) = Inr 4"
    by (simp add: py_get_def py_position_def example_ts_def)
  have n: "sample_size example_ts = 3" by (simp add: sample_size_def example_ts_samples)
  have len: "length (ts_nodes example_ts) = 5" by (simp add: example_ts_def)
  have first: "\<forall>j. int j < sample_size example_ts div 2 \<longrightarrow> is_sample (ts_nodes example_ts ! j)"
  proof (intro allI impI)
    fix j assume "int j < sample_size example_ts div 2"
    then have "j = 0" by (simp add: n)
    then show "is_sample (ts_nodes example_ts ! j)"
      by (simp add: example_ts_def is_sample_def)
  qed
  have free: "\<forall>j. 4 - sample_size example_ts div 2 \<le> int j \<and> int j < 4 \<longrightarrow>
        \<not> is_sample (ts_nodes example_ts ! j)"
  proof (intro allI impI)
    fix j assume "4 - sample_size example_ts div 2 \<le> int j \<and> int j < 4"
    then have "j = 3" by (simp add: n)
    then show "\<not> is_sample (ts_nodes example_ts ! j)"
      by (simp add: example_ts_def is_sample_def)
  qed
  from main[where lib = example_library and ts = example_ts and ts' = ts', THEN conjunct1] r
  have c1: "ts_edges ts' = ts_edges example_ts"
    "map n_time (ts_nodes ts') = map n_time (ts_nodes example_ts)"
    by simp_all
  from main[where lib = example_library and ts = example_ts and ts' = ts'
      and oldest_parent = 4, THEN conjunct2] r op first free
  have c2: "\<forall>j. j < length (ts_nodes example_ts) \<longrightarrow>
         (is_sample (ts_nodes ts' ! j) \<longleftrightarrow>
            (4 - sample_size example_ts div 2 \<le> int j \<and> int j < 4) \<or>
            (sample_size example_ts div 2 \<le> int j \<and> is_sample (ts_nodes example_ts ! j)))"
    "length (ts_samples ts') = length (ts_samples example_ts)"
    "ts_samples ts' \<noteq> ts_samples example_ts"
    by (simp_all add: n len)
  from c2(1)[rule_format, of 3] c2(1)[rule_format, of 0]
  have c3: "is_sample (ts_nodes ts' ! 3)" "\<not> is_sample (ts_nodes ts' ! 0)"
    by (simp_all add: n len)
  from op n r c1 c2(2,3) c3 example_ts_samples show ?thesis by auto
qed

section \<open>permute_nodes\<close>

lemma map_err_Inr:
  "map_err f xs = Inr ys \<Longrightarrow> list_all2 (\<lambda>x y. f x = Inr y) xs ys"
proof (induction xs arbitrary: ys)
  case Nil
  then show ?case by simp
next
  case (Cons x xs)
  then show ?case by (auto split: sum.splits)
qed

lemma permute_site_mutations_parents:
  assumes "permute_site_mutations ts node_map i = Inr ms"
  shows "\<forall>m \<in> set ms. m_parent m = NULL_MUTATION"
proof -
  from map_err_Inr[OF assms[unfolded permute_site_mutations_def]]
  have "list_all2 (\<lambda>x y. m_parent y = NULL_MUTATION)
      (filter (\<lambda>mutation. m_site mutation = int i) (ts_mutations ts)) ms"
    by (rule list_all2_mono) (auto split: sum.splits)
  then show ?thesis
    by (auto simp: list_all2_conv_all_nth in_set_conv_nth)
qed

lemma permute_tables_mutation_parents:
  assumes "permute_tables ts node_map = Inr t"
  shows "\<forall>m \<in> set (tc_mutations t). m_parent m = NULL_MUTATION"
proof -
  from assms obtain per_site where
    ps: "map_err (permute_site_mutations ts node_map) [0..<length (ts_sites ts)] = Inr per_site"
    and t: "tc_mutations t = concat per_site"
    by (auto simp: permute_tables_def Let_def split: sum.splits)
  from map_err_Inr[OF ps] have
    "\<forall>ms \<in> set per_site. \<exists>i. permute_site_mutations ts node_map i = Inr ms"
    by (fastforce simp: list_all2_conv_all_nth in_set_conv_nth)
  with permute_site_mutations_parents show ?thesis
    unfolding t by fastforce
qed

text \<open>
  Claim C5 at the identity relabelling of the example with a back mutation. The tables
  stay in canonical order, so the canonical sort has nothing to do. After
  \<open>permute_nodes\<close> with the identity and then with its inverse, the node, edge and site
  tables are the original ones, and the mutation table is not: the parent of the second
  mutation is the null mutation where the original has mutation 0.
\<close>

theorem permute_nodes_round_trip_loses_mutation_parent:
  "tables_view (Inr example_ts_mut) = Some
     \<lparr>tc_nodes = ts_nodes example_ts, tc_edges = ts_edges example_ts,
      tc_sites = [\<lparr>s_position = 1, s_ancestral_state = ''0''\<rparr>],
      tc_mutations = [\<lparr>m_site = 0, m_node = 3, m_derived_state = ''1'', m_parent = - 1\<rparr>,
                      \<lparr>m_site = 0, m_node = 0, m_derived_state = ''0'', m_parent = 0\<rparr>]\<rparr> \<and>
   tables_view (permute_round_trip example_library example_ts_mut [0, 1, 2, 3, 4] [0, 1, 2, 3, 4])
     = Some
     \<lparr>tc_nodes = ts_nodes example_ts, tc_edges = ts_edges example_ts,
      tc_sites = [\<lparr>s_position = 1, s_ancestral_state = ''0''\<rparr>],
      tc_mutations = [\<lparr>m_site = 0, m_node = 3, m_derived_state = ''1'', m_parent = - 1\<rparr>,
                      \<lparr>m_site = 0, m_node = 0, m_derived_state = ''0'', m_parent = - 1\<rparr>]\<rparr>"
  by code_simp

end
